theory Spec2Isabelle
  imports Complex_Main
begin

section \<open>Fixed income valuation: bonds, coupon schedules and discount curves\<close>

text \<open>
  A shallow embedding of \<^verbatim>\<open>bond.py\<close> and \<^verbatim>\<open>discount_curve.py\<close>.
  Python's \<^verbatim>\<open>int\<close> is \<^typ>\<open>int\<close>. Python's \<^verbatim>\<open>float\<close> is modelled twice: as
  \<^typ>\<open>real\<close> with exact arithmetic, and, for the valuation, as the reals that are
  binary64 numbers with every operation rounded. The power function is exact within the
  range of a float and raises beyond it. Infinities and NaN are not modelled.
  Every exception the modelled code can raise is a value of the type \<open>error\<close>, and a
  fallible operation returns \<open>error + 'a\<close> with \<open>Inl\<close> for the exception.
\<close>

datatype error = IndexError | ValueError | OverflowError | ZeroDivisionError | AttributeError

subsection \<open>The standard library's date\<close>

text \<open>
  \<^verbatim>\<open>datetime.date\<close> holds a year, a month and a day of the proleptic Gregorian
  calendar, between 0001-01-01 and 9999-12-31. The helper functions follow the
  library's arithmetic: day 1 is 0001-01-01.
\<close>

datatype date = Date (year: int) (month: int) (day: int)

definition MINYEAR :: int where "MINYEAR = 1"

definition MAXYEAR :: int where "MAXYEAR = 9999"

definition MAXORDINAL :: int where "MAXORDINAL = 3652059"

definition DAYS_IN_MONTH :: "int list" where
  "DAYS_IN_MONTH = [-1, 31, 28, 31, 30, 31, 30, 31, 31, 30, 31, 30, 31]"

definition DAYS_BEFORE_MONTH :: "int list" where
  "DAYS_BEFORE_MONTH = [-1, 0, 31, 59, 90, 120, 151, 181, 212, 243, 273, 304, 334]"

definition is_leap :: "int \<Rightarrow> bool" where
  "is_leap y = (y mod 4 = 0 \<and> (y mod 100 \<noteq> 0 \<or> y mod 400 = 0))"

definition days_before_year :: "int \<Rightarrow> int" where
  "days_before_year y = (y - 1) * 365 + (y - 1) div 4 - (y - 1) div 100 + (y - 1) div 400"

definition days_in_month :: "int \<Rightarrow> int \<Rightarrow> int" where
  "days_in_month y m = (if m = 2 \<and> is_leap y then 29 else DAYS_IN_MONTH ! nat m)"

definition days_before_month :: "int \<Rightarrow> int \<Rightarrow> int" where
  "days_before_month y m = DAYS_BEFORE_MONTH ! nat m + (if m > 2 \<and> is_leap y then 1 else 0)"

definition ymd2ord :: "int \<Rightarrow> int \<Rightarrow> int \<Rightarrow> int" where
  "ymd2ord y m d = days_before_year y + days_before_month y m + d"

definition DI400Y :: int where "DI400Y = 146097"

definition DI100Y :: int where "DI100Y = 36524"

definition DI4Y :: int where "DI4Y = 1461"

text \<open>The month and the day of the month of the \<open>n\<close>-th day (from 0) of a year.\<close>

definition month_of_yday :: "bool \<Rightarrow> int \<Rightarrow> int \<times> int" where
  "month_of_yday leapyear n =
    (let m = (n + 50) div 32;
         preceding = DAYS_BEFORE_MONTH ! nat m + (if m > 2 \<and> leapyear then 1 else 0)
     in if preceding > n
        then let m' = m - 1;
                 preceding' = preceding - (DAYS_IN_MONTH ! nat m' + (if m' = 2 \<and> leapyear then 1 else 0))
             in (m', n - preceding' + 1)
        else (m, n - preceding + 1))"

definition ord2ymd :: "int \<Rightarrow> date" where
  "ord2ymd n0 =
    (let n = n0 - 1;
         n400 = n div DI400Y; n = n mod DI400Y;
         y = n400 * 400 + 1;
         n100 = n div DI100Y; n = n mod DI100Y;
         n4 = n div DI4Y; n = n mod DI4Y;
         n1 = n div 365; n = n mod 365;
         y = y + n100 * 100 + n4 * 4 + n1
     in if n1 = 4 \<or> n100 = 4 then Date (y - 1) 12 31
        else
          let leapyear = (n1 = 3 \<and> (n4 \<noteq> 24 \<or> n100 = 3));
              (m, d) = month_of_yday leapyear n
          in Date y m d)"

text \<open>A date object always satisfies \<open>valid_date\<close>: the constructor refuses anything else.\<close>

definition valid_date :: "date \<Rightarrow> bool" where
  "valid_date d = (MINYEAR \<le> year d \<and> year d \<le> MAXYEAR \<and> 1 \<le> month d \<and> month d \<le> 12
      \<and> 1 \<le> day d \<and> day d \<le> days_in_month (year d) (month d))"

text \<open>\<^verbatim>\<open>date(y, m, d)\<close>: a ValueError outside the calendar.\<close>

definition py_date :: "int \<Rightarrow> int \<Rightarrow> int \<Rightarrow> error + date" where
  "py_date y m d = (if valid_date (Date y m d) then Inr (Date y m d) else Inl ValueError)"

definition toordinal :: "date \<Rightarrow> int" where
  "toordinal d = ymd2ord (year d) (month d) (day d)"

text \<open>\<^verbatim>\<open>d.weekday()\<close>: Monday is 0 and Sunday is 6.\<close>

definition weekday :: "date \<Rightarrow> int" where
  "weekday d = (toordinal d + 6) mod 7"

text \<open>\<^verbatim>\<open>d + timedelta(days = n)\<close>: an OverflowError outside the calendar.\<close>

definition date_add_days :: "date \<Rightarrow> int \<Rightarrow> error + date" where
  "date_add_days d n =
    (let ordinal = toordinal d + n
     in if 0 < ordinal \<and> ordinal \<le> MAXORDINAL then Inr (ord2ymd ordinal) else Inl OverflowError)"

text \<open>\<^verbatim>\<open>d - timedelta(days = n)\<close> adds the negated difference.\<close>

definition date_sub_days :: "date \<Rightarrow> int \<Rightarrow> error + date" where
  "date_sub_days d n = date_add_days d (- n)"

text \<open>\<^verbatim>\<open>(a - b).days\<close>.\<close>

definition days_between :: "date \<Rightarrow> date \<Rightarrow> int" where
  "days_between a b = toordinal a - toordinal b"

text \<open>Dates compare as the triples (year, month, day).\<close>

instantiation date :: linorder
begin

definition less_date :: "date \<Rightarrow> date \<Rightarrow> bool" where
  "less_date a b = (year a < year b \<or> (year a = year b \<and>
      (month a < month b \<or> (month a = month b \<and> day a < day b))))"

definition less_eq_date :: "date \<Rightarrow> date \<Rightarrow> bool" where
  "less_eq_date a b = (year a < year b \<or> (year a = year b \<and>
      (month a < month b \<or> (month a = month b \<and> day a \<le> day b))))"

instance
proof
  fix x y z :: date
  show "(x < y) = (x \<le> y \<and> \<not> y \<le> x)"
    by (auto simp: less_date_def less_eq_date_def)
  show "x \<le> x" by (simp add: less_eq_date_def)
  show "x \<le> y \<Longrightarrow> y \<le> z \<Longrightarrow> x \<le> z"
    by (auto simp: less_eq_date_def)
  show "x \<le> y \<Longrightarrow> y \<le> x \<Longrightarrow> x = y"
    by (cases x; cases y) (auto simp: less_eq_date_def)
  show "x \<le> y \<or> y \<le> x"
    by (auto simp: less_eq_date_def)
qed

end

subsection \<open>The calendar arithmetic is a bijection\<close>

lemma nth_DIM [simp]:
  "DAYS_IN_MONTH ! 0 = -1" "DAYS_IN_MONTH ! 1 = 31" "DAYS_IN_MONTH ! 2 = 28" "DAYS_IN_MONTH ! 3 = 31"
  "DAYS_IN_MONTH ! 4 = 30" "DAYS_IN_MONTH ! 5 = 31" "DAYS_IN_MONTH ! 6 = 30" "DAYS_IN_MONTH ! 7 = 31"
  "DAYS_IN_MONTH ! 8 = 31" "DAYS_IN_MONTH ! 9 = 30" "DAYS_IN_MONTH ! 10 = 31" "DAYS_IN_MONTH ! 11 = 30"
  "DAYS_IN_MONTH ! 12 = 31" "DAYS_IN_MONTH ! Suc 0 = 31"
  by (simp_all add: DAYS_IN_MONTH_def)

lemma nth_DBM [simp]:
  "DAYS_BEFORE_MONTH ! 0 = -1" "DAYS_BEFORE_MONTH ! 1 = 0" "DAYS_BEFORE_MONTH ! 2 = 31" "DAYS_BEFORE_MONTH ! 3 = 59"
  "DAYS_BEFORE_MONTH ! 4 = 90" "DAYS_BEFORE_MONTH ! 5 = 120" "DAYS_BEFORE_MONTH ! 6 = 151" "DAYS_BEFORE_MONTH ! 7 = 181"
  "DAYS_BEFORE_MONTH ! 8 = 212" "DAYS_BEFORE_MONTH ! 9 = 243" "DAYS_BEFORE_MONTH ! 10 = 273" "DAYS_BEFORE_MONTH ! 11 = 304"
  "DAYS_BEFORE_MONTH ! 12 = 334" "DAYS_BEFORE_MONTH ! Suc 0 = 0"
  by (simp_all add: DAYS_BEFORE_MONTH_def)


lemma dby_decomp:
  assumes "0 \<le> n100" "n100 \<le> 3" "0 \<le> n4" "n4 \<le> 24" "0 \<le> n1" "n1 \<le> 3"
  shows "days_before_year (n400 * 400 + 1 + n100 * 100 + n4 * 4 + n1)
         = n400 * 146097 + n100 * 36524 + n4 * 1461 + n1 * 365"
proof -
  define Y where "Y = n400 * 400 + n100 * 100 + n4 * 4 + n1"
  have d4: "Y div 4 = 100 * n400 + 25 * n100 + n4"
    by (rule int_div_pos_eq [where r = n1]) (use assms in \<open>simp_all add: Y_def\<close>)
  have d100: "Y div 100 = 4 * n400 + n100"
    by (rule int_div_pos_eq [where r = "n4 * 4 + n1"]) (use assms in \<open>simp_all add: Y_def\<close>)
  have d400: "Y div 400 = n400"
    by (rule int_div_pos_eq [where r = "n100 * 100 + n4 * 4 + n1"]) (use assms in \<open>simp_all add: Y_def\<close>)
  have "days_before_year (Y + 1) = Y * 365 + Y div 4 - Y div 100 + Y div 400"
    by (simp add: days_before_year_def)
  also have "\<dots> = n400 * 146097 + n100 * 36524 + n4 * 1461 + n1 * 365"
    unfolding d4 d100 d400 by (simp add: Y_def)
  finally show ?thesis by (simp add: Y_def algebra_simps)
qed

lemma leap_decomp:
  assumes "0 \<le> n100" "n100 \<le> 3" "0 \<le> n4" "n4 \<le> 24" "0 \<le> n1" "n1 \<le> 3"
  shows "is_leap (n400 * 400 + 1 + n100 * 100 + n4 * 4 + n1)
         = (n1 = 3 \<and> (n4 \<noteq> 24 \<or> n100 = 3))"
proof -
  define y where "y = n400 * 400 + 1 + n100 * 100 + n4 * 4 + n1"
  define r4 where "r4 = n1 + 1"
  define r100 where "r100 = n4 * 4 + n1 + 1"
  define r400 where "r400 = n100 * 100 + n4 * 4 + n1 + 1"
  have y4: "y = r4 + 4 * (n400 * 100 + n100 * 25 + n4)"
    and y100: "y = r100 + 100 * (n400 * 4 + n100)"
    and y400: "y = r400 + 400 * n400"
    by (simp_all add: y_def r4_def r100_def r400_def)
  have m4: "y mod 4 = r4 mod 4" unfolding y4 by (rule mod_mult_self2)
  have m100: "y mod 100 = r100 mod 100" unfolding y100 by (rule mod_mult_self2)
  have m400: "y mod 400 = r400 mod 400" unfolding y400 by (rule mod_mult_self2)
  have b4: "0 < r4" "r4 \<le> 4" and b100: "0 < r100" "r100 \<le> 100" and b400: "0 < r400" "r400 \<le> 400"
    using assms by (simp_all add: r4_def r100_def r400_def)
  have z: "r mod k = 0 \<longleftrightarrow> r = k" if "0 < r" "r \<le> k" for r k :: int
  proof (cases "r = k")
    case True then show ?thesis by simp
  next
    case False
    then have "r mod k = r" using that by (intro mod_pos_pos_trivial) simp_all
    then show ?thesis using that False by simp
  qed
  have "is_leap y = (r4 = 4 \<and> (r100 \<noteq> 100 \<or> r400 = 400))"
    unfolding is_leap_def m4 m100 m400 z [OF b4] z [OF b100] z [OF b400] ..
  also have "\<dots> = (n1 = 3 \<and> (n4 \<noteq> 24 \<or> n100 = 3))"
    using assms unfolding r4_def r100_def r400_def by auto
  finally show ?thesis unfolding y_def .
qed

lemma month_cases:
  assumes "1 \<le> (m::int)" "m \<le> 12"
  obtains "m = 1" | "m = 2" | "m = 3" | "m = 4" | "m = 5" | "m = 6"
    | "m = 7" | "m = 8" | "m = 9" | "m = 10" | "m = 11" | "m = 12"
proof -
  have "m = 1 \<or> m = 2 \<or> m = 3 \<or> m = 4 \<or> m = 5 \<or> m = 6
    \<or> m = 7 \<or> m = 8 \<or> m = 9 \<or> m = 10 \<or> m = 11 \<or> m = 12"
    using assms by arith
  then show thesis using that by blast
qed

lemma month_of_yday_ok:
  assumes "0 \<le> n" "n < 365" "month_of_yday leap n = (m, d)"
  shows "1 \<le> m \<and> m \<le> 12 \<and> 1 \<le> d
       \<and> d \<le> DAYS_IN_MONTH ! nat m + (if m = 2 \<and> leap then 1 else 0)
       \<and> DAYS_BEFORE_MONTH ! nat m + (if m > 2 \<and> leap then 1 else 0) + d = n + 1"
proof -
  define m0 where "m0 = (n + 50) div 32"
  have r: "1 \<le> m0" "m0 \<le> 12" "32 * m0 - 50 \<le> n" "n \<le> 32 * m0 - 19"
    using assms(1,2) unfolding m0_def by presburger+
  from r(1,2) show ?thesis
  proof (cases m0 rule: month_cases)
    case 1 then show ?thesis using r(3,4) assms
      by (auto simp: month_of_yday_def Let_def m0_def [symmetric] split: if_splits)
  next
    case 2 then show ?thesis using r(3,4) assms
      by (auto simp: month_of_yday_def Let_def m0_def [symmetric] split: if_splits)
  next
    case 3 then show ?thesis using r(3,4) assms
      by (auto simp: month_of_yday_def Let_def m0_def [symmetric] split: if_splits)
  next
    case 4 then show ?thesis using r(3,4) assms
      by (auto simp: month_of_yday_def Let_def m0_def [symmetric] split: if_splits)
  next
    case 5 then show ?thesis using r(3,4) assms
      by (auto simp: month_of_yday_def Let_def m0_def [symmetric] split: if_splits)
  next
    case 6 then show ?thesis using r(3,4) assms
      by (auto simp: month_of_yday_def Let_def m0_def [symmetric] split: if_splits)
  next
    case 7 then show ?thesis using r(3,4) assms
      by (auto simp: month_of_yday_def Let_def m0_def [symmetric] split: if_splits)
  next
    case 8 then show ?thesis using r(3,4) assms
      by (auto simp: month_of_yday_def Let_def m0_def [symmetric] split: if_splits)
  next
    case 9 then show ?thesis using r(3,4) assms
      by (auto simp: month_of_yday_def Let_def m0_def [symmetric] split: if_splits)
  next
    case 10 then show ?thesis using r(3,4) assms
      by (auto simp: month_of_yday_def Let_def m0_def [symmetric] split: if_splits)
  next
    case 11 then show ?thesis using r(3,4) assms
      by (auto simp: month_of_yday_def Let_def m0_def [symmetric] split: if_splits)
  next
    case 12 then show ?thesis using r(3,4) assms
      by (auto simp: month_of_yday_def Let_def m0_def [symmetric] split: if_splits)
  qed
qed

lemma div_step:
  assumes "0 < (k::int)"
  shows "y div k = (y - 1) div k + (if y mod k = 0 then 1 else 0)"
proof -
  define q where "q = (y - 1) div k"
  define r where "r = (y - 1) mod k"
  have y: "y = k * q + r + 1" unfolding q_def r_def by simp
  have r: "0 \<le> r" "r < k" using assms by (simp_all add: r_def)
  show ?thesis
  proof (cases "r = k - 1")
    case True
    then have y': "y = k * (q + 1) + 0" using y by (simp add: algebra_simps)
    have "y div k = q + 1" by (rule int_div_pos_eq [OF y']) (use assms in simp_all)
    moreover have "y mod k = 0" by (rule int_mod_pos_eq [OF y']) (use assms in simp_all)
    ultimately show ?thesis by (simp add: q_def)
  next
    case False
    then have r': "0 \<le> r + 1" "r + 1 < k" using r by simp_all
    have y': "y = k * q + (r + 1)" using y by simp
    have "y div k = q" by (rule int_div_pos_eq [OF y' r'])
    moreover have "y mod k = r + 1" by (rule int_mod_pos_eq [OF y' r'])
    ultimately show ?thesis using r by (simp add: q_def)
  qed
qed

lemma mod_dvd_trans:
  assumes "(j::int) dvd k" "y mod k = 0"
  shows "y mod j = 0"
proof -
  from assms(2) have "k dvd y" by (simp only: mod_eq_0_iff_dvd)
  with assms(1) have "j dvd y" by (rule dvd_trans)
  then show ?thesis by (simp only: mod_eq_0_iff_dvd)
qed

lemma dby_Suc: "days_before_year (y + 1) = days_before_year y + (if is_leap y then 366 else 365)"
proof -
  define A where "A = (y - 1) div 4"
  define B where "B = (y - 1) div 100"
  define C where "C = (y - 1) div 400"
  define p4 where "p4 \<longleftrightarrow> y mod 4 = 0"
  define p100 where "p100 \<longleftrightarrow> y mod 100 = 0"
  define p400 where "p400 \<longleftrightarrow> y mod 400 = 0"
  define a :: int where "a = (if p4 then 1 else 0)"
  define b :: int where "b = (if p100 then 1 else 0)"
  define c :: int where "c = (if p400 then 1 else 0)"
  have d4: "y div 4 = A + a" unfolding A_def a_def p4_def by (rule div_step) simp
  have d100: "y div 100 = B + b" unfolding B_def b_def p100_def by (rule div_step) simp
  have d400: "y div 400 = C + c" unfolding C_def c_def p400_def by (rule div_step) simp
  have d: "p400 \<Longrightarrow> p100"
    unfolding p400_def p100_def by (erule mod_dvd_trans [rotated]) simp
  have e: "p100 \<Longrightarrow> p4"
    unfolding p100_def p4_def by (erule mod_dvd_trans [rotated]) simp
  have leap: "is_leap y = (p4 \<and> (\<not> p100 \<or> p400))"
    unfolding is_leap_def p4_def p100_def p400_def ..
  have l: "(if is_leap y then 366 else 365) = 365 + a - b + c"
    unfolding leap a_def b_def c_def using d e
    by (cases p4; cases p100; cases p400; simp)
  have "days_before_year (y + 1) = y * 365 + y div 4 - y div 100 + y div 400"
    by (simp add: days_before_year_def)
  also have "\<dots> = y * 365 + (A + a) - (B + b) + (C + c)"
    unfolding d4 d100 d400 ..
  also have "\<dots> = ((y - 1) * 365 + A - B + C) + (365 + a - b + c)"
    by (simp add: algebra_simps)
  also have "(y - 1) * 365 + A - B + C = days_before_year y"
    by (simp add: days_before_year_def A_def B_def C_def)
  finally show ?thesis unfolding l .
qed

lemma dby_mono_aux: "days_before_year y + 365 * int k \<le> days_before_year (y + int k)"
proof (induction k)
  case 0 show ?case by simp
next
  case (Suc k)
  have "days_before_year (y + int (Suc k)) = days_before_year ((y + int k) + 1)"
    by (simp add: add.commute add.left_commute)
  also have "\<dots> \<ge> days_before_year (y + int k) + 365"
    unfolding dby_Suc by simp
  finally show ?case using Suc by simp
qed

lemma dby_mono: "y1 \<le> y2 \<Longrightarrow> days_before_year y1 + 365 * (y2 - y1) \<le> days_before_year y2"
  using dby_mono_aux [of y1 "nat (y2 - y1)"] by simp

lemma divmod_facts:
  assumes "0 \<le> (a::int)" "0 < k"
  shows "a = k * (a div k) + a mod k" "0 \<le> a div k" "0 \<le> a mod k" "a mod k < k"
  using assms by (simp_all add: pos_imp_zdiv_nonneg_iff)

lemma ord2ymd_core:
  assumes "1 \<le> n0"
  shows "\<exists>y m d. ord2ymd n0 = Date y m d \<and> 1 \<le> y \<and> 1 \<le> m \<and> m \<le> 12 \<and> 1 \<le> d
          \<and> d \<le> days_in_month y m \<and> ymd2ord y m d = n0"
proof -
  define n where "n = n0 - 1"
  define n400 where "n400 = n div 146097"
  define r1 where "r1 = n mod 146097"
  define n100 where "n100 = r1 div 36524"
  define r2 where "r2 = r1 mod 36524"
  define n4 where "n4 = r2 div 1461"
  define r3 where "r3 = r2 mod 1461"
  define n1 where "n1 = r3 div 365"
  define r4 where "r4 = r3 mod 365"
  define Y where "Y = n400 * 400 + 1 + n100 * 100 + n4 * 4 + n1"
  have n0: "0 \<le> n" using assms by (simp add: n_def)
  note f1 = divmod_facts [OF n0, of 146097, folded n400_def r1_def, simplified]
  note f2 = divmod_facts [OF f1(3), of 36524, folded n100_def r2_def, simplified]
  note f3 = divmod_facts [OF f2(3), of 1461, folded n4_def r3_def, simplified]
  note f4 = divmod_facts [OF f3(3), of 365, folded n1_def r4_def, simplified]
  have b100: "n100 \<le> 4" using f1 f2 by linarith
  have b4: "n4 \<le> 24" using f2 f3 by linarith
  have b1: "n1 \<le> 4" using f3 f4 by linarith
  have unfold: "ord2ymd n0 =
     (if n1 = 4 \<or> n100 = 4 then Date (Y - 1) 12 31
      else case month_of_yday (n1 = 3 \<and> (n4 \<noteq> 24 \<or> n100 = 3)) r4 of (m, d) \<Rightarrow> Date Y m d)"
    unfolding ord2ymd_def Let_def DI400Y_def DI100Y_def DI4Y_def
      Y_def r4_def n1_def r3_def n4_def r2_def n100_def r1_def n400_def n_def ..
  have nY: "n = n400 * 146097 + n100 * 36524 + n4 * 1461 + n1 * 365 + r4"
    using f1(1) f2(1) f3(1) f4(1) by linarith
  have Y1: "1 \<le> Y" using f1(2) f2(2) f3(2) f4(2) by (simp add: Y_def)
  consider (A) "n100 = 4" | (B) "n100 \<le> 3" "n1 = 4" | (C) "n100 \<le> 3" "n1 \<le> 3"
    using b100 b1 by linarith
  then show ?thesis
  proof cases
    case A
    have z: "n4 = 0" "n1 = 0" "r4 = 0"
      using A f1 f2 f3 f4 by linarith+
    have Ym: "Y - 1 = n400 * 400 + 1 + 3 * 100 + 24 * 4 + 3" by (simp add: Y_def A z)
    have dby: "days_before_year (Y - 1) = n400 * 146097 + 145731"
      unfolding Ym by (subst dby_decomp) simp_all
    have leap: "is_leap (Y - 1)"
      unfolding Ym by (subst leap_decomp) simp_all
    have "ymd2ord (Y - 1) 12 31 = n0"
      using nY by (simp add: ymd2ord_def dby days_before_month_def leap A z n_def)
    moreover have "1 \<le> Y - 1" using f1(2) by (simp add: Ym)
    moreover have "ord2ymd n0 = Date (Y - 1) 12 31" using A by (simp add: unfold)
    ultimately show ?thesis by (simp add: days_in_month_def)
  next
    case B
    have z: "r4 = 0" "n4 \<le> 23"
      using B f2 f3 f4 by linarith+
    have Ym: "Y - 1 = n400 * 400 + 1 + n100 * 100 + n4 * 4 + 3" by (simp add: Y_def B)
    have dby: "days_before_year (Y - 1) = n400 * 146097 + n100 * 36524 + n4 * 1461 + 3 * 365"
      unfolding Ym using B z f2(2) f3(2) by (subst dby_decomp) simp_all
    have leap: "is_leap (Y - 1)"
      unfolding Ym using B z f2(2) f3(2) by (subst leap_decomp) simp_all
    have "ymd2ord (Y - 1) 12 31 = n0"
      using nY by (simp add: ymd2ord_def dby days_before_month_def leap B z n_def)
    moreover have "1 \<le> Y - 1" using f1(2) f2(2) f3(2) by (simp add: Ym)
    moreover have "ord2ymd n0 = Date (Y - 1) 12 31" using B by (simp add: unfold)
    ultimately show ?thesis by (simp add: days_in_month_def)
  next
    case C
    define lp where "lp \<longleftrightarrow> n1 = 3 \<and> (n4 \<noteq> 24 \<or> n100 = 3)"
    obtain m d where md: "month_of_yday lp r4 = (m, d)" by (cases "month_of_yday lp r4")
    note ok = month_of_yday_ok [OF f4(3) f4(4) md]
    have dby: "days_before_year Y = n400 * 146097 + n100 * 36524 + n4 * 1461 + n1 * 365"
      unfolding Y_def using C b4 f2(2) f3(2) f4(2) by (intro dby_decomp) simp_all
    have leap: "is_leap Y = lp"
      unfolding Y_def lp_def using C b4 f2(2) f3(2) f4(2) by (intro leap_decomp) simp_all
    have "\<not> (n1 = 4 \<or> n100 = 4)" using C by simp
    then have o: "ord2ymd n0 = Date Y m d"
      unfolding unfold lp_def [symmetric] md by simp
    have "ymd2ord Y m d = n0"
      using ok nY by (simp add: ymd2ord_def dby days_before_month_def leap n_def)
    moreover have "d \<le> days_in_month Y m"
      using ok by (auto simp: days_in_month_def leap)
    ultimately show ?thesis using o ok Y1 by simp
  qed
qed

lemma dbm_bounds:
  assumes "1 \<le> m" "m \<le> 12"
  shows "0 \<le> days_before_month y m"
    and "days_before_month y m + days_in_month y m \<le> (if is_leap y then 366 else 365)"
  using assms(1,2)
  by (cases m rule: month_cases; simp add: days_before_month_def days_in_month_def)+

lemma dbm_mono:
  assumes "1 \<le> m1" "m1 < m2" "m2 \<le> 12"
  shows "days_before_month y m1 + days_in_month y m1 \<le> days_before_month y m2"
proof -
  have s: "days_before_month y (m + 1) = days_before_month y m + days_in_month y m"
    if "1 \<le> m" "m \<le> 11" for m
  proof -
    have "1 \<le> m" "m \<le> 12" using that by simp_all
    then show ?thesis using that(2)
      by (cases m rule: month_cases; simp add: days_before_month_def days_in_month_def)
  qed
  have p: "0 \<le> days_in_month y m" if "1 \<le> m" "m \<le> 12" for m
    using that by (cases m rule: month_cases; simp add: days_in_month_def)
  have "days_before_month y (m1 + 1) \<le> days_before_month y (m1 + 1 + int k)"
    if "m1 + 1 + int k \<le> 12" for k
    using that
  proof (induction k)
    case 0 show ?case by simp
  next
    case (Suc k)
    have "days_before_month y (m1 + 1 + int (Suc k)) = days_before_month y ((m1 + 1 + int k) + 1)"
      by (simp add: add.commute add.left_commute)
    also have "\<dots> = days_before_month y (m1 + 1 + int k) + days_in_month y (m1 + 1 + int k)"
      using Suc.prems assms(1) by (intro s) simp_all
    finally show ?case using Suc p [of "m1 + 1 + int k"] assms(1) by simp
  qed
  from this [of "nat (m2 - m1 - 1)"] assms
  have "days_before_month y (m1 + 1) \<le> days_before_month y m2" by simp
  then show ?thesis using s [of m1] assms by simp
qed

lemma toordinal_bounds:
  assumes "valid_date d"
  shows "days_before_year (year d) < toordinal d" "toordinal d \<le> days_before_year (year d + 1)"
proof -
  have m: "1 \<le> month d" "month d \<le> 12" and dd: "1 \<le> day d" "day d \<le> days_in_month (year d) (month d)"
    using assms by (simp_all add: valid_date_def)
  from dbm_bounds [OF m, of "year d"] dd
  show "days_before_year (year d) < toordinal d" "toordinal d \<le> days_before_year (year d + 1)"
    by (simp_all add: toordinal_def ymd2ord_def dby_Suc)
qed

lemma toordinal_strict_mono:
  assumes "valid_date a" "valid_date b" "a < b"
  shows "toordinal a < toordinal b"
proof -
  consider (y) "year a < year b" | (m) "year a = year b" "month a < month b"
    | (d) "year a = year b" "month a = month b" "day a < day b"
    using assms(3) by (auto simp: less_date_def)
  then show ?thesis
  proof cases
    case y
    have "toordinal a \<le> days_before_year (year a + 1)" by (rule toordinal_bounds [OF assms(1)])
    also have "\<dots> \<le> days_before_year (year b)" using dby_mono [of "year a + 1" "year b"] y by simp
    also have "\<dots> < toordinal b" by (rule toordinal_bounds [OF assms(2)])
    finally show ?thesis .
  next
    case m
    have "days_before_month (year a) (month a) + days_in_month (year a) (month a)
        \<le> days_before_month (year a) (month b)"
      using assms(1,2) m by (intro dbm_mono) (simp_all add: valid_date_def)
    then show ?thesis using assms(1,2) m
      by (simp add: toordinal_def ymd2ord_def valid_date_def)
  next
    case d
    then show ?thesis by (simp add: toordinal_def ymd2ord_def)
  qed
qed

lemma toordinal_less_iff:
  assumes "valid_date a" "valid_date b"
  shows "toordinal a < toordinal b \<longleftrightarrow> a < b"
  using toordinal_strict_mono [OF assms] toordinal_strict_mono [OF assms(2,1)]
  by (metis less_irrefl linorder_less_linear order_less_trans)

lemma toordinal_le_iff:
  assumes "valid_date a" "valid_date b"
  shows "toordinal a \<le> toordinal b \<longleftrightarrow> a \<le> b"
  using toordinal_less_iff [OF assms(2,1)] by (simp add: not_less [symmetric])

lemma toordinal_inj:
  assumes "valid_date a" "valid_date b" "toordinal a = toordinal b"
  shows "a = b"
  using toordinal_le_iff [OF assms(1,2)] toordinal_le_iff [OF assms(2,1)] assms(3) by simp

lemma toordinal_range:
  assumes "valid_date d"
  shows "1 \<le> toordinal d" "toordinal d \<le> MAXORDINAL"
proof -
  have y: "1 \<le> year d" "year d \<le> 9999" using assms by (simp_all add: valid_date_def MINYEAR_def MAXYEAR_def)
  have "days_before_year 1 \<le> days_before_year (year d)" using dby_mono [of 1 "year d"] y by simp
  then show "1 \<le> toordinal d" using toordinal_bounds(1) [OF assms] by (simp add: days_before_year_def)
  have "days_before_year (year d + 1) \<le> days_before_year 10000" using dby_mono [of "year d + 1" 10000] y by simp
  then show "toordinal d \<le> MAXORDINAL" using toordinal_bounds(2) [OF assms]
    by (simp add: days_before_year_def MAXORDINAL_def)
qed

lemma ord2ymd_valid:
  assumes "1 \<le> n" "n \<le> MAXORDINAL"
  shows "valid_date (ord2ymd n)" "toordinal (ord2ymd n) = n"
proof -
  from ord2ymd_core [OF assms(1)] obtain y m d where
    o: "ord2ymd n = Date y m d" and r: "1 \<le> y" "1 \<le> m" "m \<le> 12" "1 \<le> d" "d \<le> days_in_month y m"
    and e: "ymd2ord y m d = n" by blast
  show t: "toordinal (ord2ymd n) = n" using o e by (simp add: toordinal_def)
  have "y \<le> 9999"
  proof (rule ccontr)
    assume "\<not> y \<le> 9999"
    then have "days_before_year 10000 \<le> days_before_year y" using dby_mono [of 10000 y] by simp
    moreover have "0 \<le> days_before_month y m" using r by (intro dbm_bounds)
    ultimately show False using e r(4) assms(2)
      by (simp add: ymd2ord_def days_before_year_def MAXORDINAL_def)
  qed
  then show "valid_date (ord2ymd n)" using o r by (simp add: valid_date_def MINYEAR_def MAXYEAR_def)
qed

lemma ord2ymd_toordinal:
  assumes "valid_date d"
  shows "ord2ymd (toordinal d) = d"
  using toordinal_range [OF assms] ord2ymd_valid [of "toordinal d"] toordinal_inj [OF _ assms]
  by simp

subsection \<open>bond.py: coupons and the fixed-rate bond\<close>

record coupon =
  ex_date :: date
  payment_date :: date
  coupon_amount :: real

record FixedRateACGB =
  principle :: real
  coupons :: "coupon list"
  maturity :: date
  priv_market_dirty_price :: real

subsection \<open>Rolling a date to a business day\<close>

lemma weekday_range: "0 \<le> weekday d" "weekday d < 7"
  by (simp_all add: weekday_def)

lemma toordinal_add_days:
  assumes "date_add_days d n = Inr d'"
  shows "toordinal d' = toordinal d + n" "valid_date d'"
  using assms ord2ymd_valid [of "toordinal d + n"]
  by (auto simp: date_add_days_def Let_def split: if_splits)

lemma mod7_succ: "((a::int) + 1) mod 7 = (if a mod 7 = 6 then 0 else a mod 7 + 1)"
proof -
  define q where "q = a div 7"
  define r where "r = a mod 7"
  have a: "a = 7 * q + r" and r: "0 \<le> r" "r < 7" by (simp_all add: q_def r_def)
  show ?thesis
  proof (cases "r = 6")
    case True
    then have "a + 1 = 7 * (q + 1) + 0" using a by simp
    then have "(a + 1) mod 7 = 0" by (rule int_mod_pos_eq) simp_all
    then show ?thesis using True by (simp add: r_def)
  next
    case False
    have "a + 1 = 7 * q + (r + 1)" using a by simp
    then have "(a + 1) mod 7 = r + 1" by (rule int_mod_pos_eq) (use r False in simp_all)
    then show ?thesis using False by (simp add: r_def)
  qed
qed

lemma weekday_add_one:
  assumes "date_add_days d 1 = Inr d'"
  shows "weekday d' = (if weekday d = 6 then 0 else weekday d + 1)"
proof -
  have "toordinal d' + 6 = (toordinal d + 6) + 1" using toordinal_add_days(1) [OF assms] by simp
  then show ?thesis unfolding weekday_def by (simp only: mod7_succ)
qed

text \<open>
  \<^verbatim>\<open>_business_date\<close>: a date on a Saturday or a Sunday moves to the next day, again
  and again; any other date is returned as it is.
\<close>

function business_date :: "date \<Rightarrow> error + date" where
  "business_date reference_date =
    (if weekday reference_date > 4
     then (case date_add_days reference_date 1 of
             Inl e \<Rightarrow> Inl e
           | Inr next_date \<Rightarrow> business_date next_date)
     else Inr reference_date)"
  by pat_completeness auto
termination
proof (relation "measure (\<lambda>d. if weekday d = 5 then 2 else if weekday d = 6 then 1 else 0)")
  show "wf (measure (\<lambda>d. if weekday d = 5 then 2 else if weekday d = 6 then 1 else 0))" by simp
next
  fix reference_date next_date
  assume w: "4 < weekday reference_date" and a: "date_add_days reference_date 1 = Inr next_date"
  have "weekday reference_date = 5 \<or> weekday reference_date = 6"
    using w weekday_range [of reference_date] by linarith
  then show "(next_date, reference_date) \<in> measure (\<lambda>d. if weekday d = 5 then 2 else if weekday d = 6 then 1 else 0)"
    using weekday_add_one [OF a] by auto
qed


text \<open>The constructors \<^verbatim>\<open>Coupon(amount, ex_date, payment_date)\<close> and
  \<^verbatim>\<open>FixedRateACGB(principle, coupons, maturity)\<close>; the latter sets the market price to 0.\<close>

definition Coupon :: "real \<Rightarrow> date \<Rightarrow> date \<Rightarrow> coupon" where
  "Coupon amount ex_d pay_d = \<lparr>ex_date = ex_d, payment_date = pay_d, coupon_amount = amount\<rparr>"

definition FixedRateACGB_init :: "real \<Rightarrow> coupon list \<Rightarrow> date \<Rightarrow> FixedRateACGB" where
  "FixedRateACGB_init p cs m = \<lparr>principle = p, coupons = cs, maturity = m, priv_market_dirty_price = 0\<rparr>"

text \<open>
  The \<^verbatim>\<open>while\<close> loop of \<^verbatim>\<open>construct_yearly_coupon_series\<close>, with the loop
  variables \<^verbatim>\<open>coupon_date\<close> and \<^verbatim>\<open>coupons\<close> as arguments. Each statement of
  the body that can raise is a case distinction, in the order of the source.
\<close>

function series_loop :: "date \<Rightarrow> date \<Rightarrow> real \<Rightarrow> coupon list \<Rightarrow> error + coupon list" where
  "series_loop coupon_date last_pay_date amount cs =
    (if coupon_date \<le> last_pay_date
     then (case date_sub_days coupon_date 9 of
             Inl e \<Rightarrow> Inl e
           | Inr shifted \<Rightarrow>
          (case business_date shifted of
             Inl e \<Rightarrow> Inl e
           | Inr ex_d \<Rightarrow>
          (case business_date coupon_date of
             Inl e \<Rightarrow> Inl e
           | Inr pay_d \<Rightarrow>
          (case py_date (year coupon_date + 1) (month coupon_date) (day coupon_date) of
             Inl e \<Rightarrow> Inl e
           | Inr next_date \<Rightarrow>
               series_loop next_date last_pay_date amount (cs @ [Coupon amount ex_d pay_d])))))
     else Inr cs)"
  by pat_completeness auto
termination
proof (relation "measure (\<lambda>(d, l, a, cs). nat (MAXYEAR + 1 - year d))")
  show "wf (measure (\<lambda>(d, l, a, cs). nat (MAXYEAR + 1 - year d)))" by simp
next
  fix coupon_date last_pay_date :: date and amount :: real and cs :: "coupon list"
    and shifted ex_d pay_d next_date :: date
  assume "py_date (year coupon_date + 1) (month coupon_date) (day coupon_date) = Inr next_date"
  then have "year next_date = year coupon_date + 1" "year next_date \<le> MAXYEAR"
    by (auto simp: py_date_def valid_date_def split: if_splits)
  then show "((next_date, last_pay_date, amount, cs @ [Coupon amount ex_d pay_d]),
              (coupon_date, last_pay_date, amount, cs))
      \<in> measure (\<lambda>(d, l, a, cs). nat (MAXYEAR + 1 - year d))"
    by simp
qed

definition construct_yearly_coupon_series :: "date \<Rightarrow> date \<Rightarrow> real \<Rightarrow> real \<Rightarrow> error + coupon list" where
  "construct_yearly_coupon_series first_pay_date last_pay_date rate p =
     series_loop first_pay_date last_pay_date (p * rate) []"

definition construct :: "date \<Rightarrow> date \<Rightarrow> date \<Rightarrow> real \<Rightarrow> real \<Rightarrow> error + FixedRateACGB" where
  "construct first_coupon_pay_date second_coupon_pay_date maturity_date coupon_rate p =
    (case construct_yearly_coupon_series first_coupon_pay_date maturity_date (coupon_rate / 2) p of
       Inl e \<Rightarrow> Inl e
     | Inr coupons_a \<Rightarrow>
    (case construct_yearly_coupon_series second_coupon_pay_date maturity_date (coupon_rate / 2) p of
       Inl e \<Rightarrow> Inl e
     | Inr coupons_b \<Rightarrow> Inr (FixedRateACGB_init p (coupons_a @ coupons_b) maturity_date)))"

text \<open>The builtin \<^verbatim>\<open>sum\<close> adds from the left, starting at 0.\<close>

definition py_sum :: "real list \<Rightarrow> real" where
  "py_sum xs = foldl (+) 0 xs"

definition calculate_dirty_value :: "FixedRateACGB \<Rightarrow> (date \<Rightarrow> real) \<Rightarrow> date \<Rightarrow> real" where
  "calculate_dirty_value self discount_curve today =
    (let future_coupons = filter (\<lambda>c. ex_date c > today) (coupons self);
         discounted_coupon_value =
           py_sum (map (\<lambda>c. discount_curve (payment_date c) * coupon_amount c) future_coupons);
         discounted_face_value = discount_curve (maturity self) * principle self
     in discounted_coupon_value + discounted_face_value)"

declare business_date.simps [simp del] series_loop.simps [simp del]


subsection \<open>The roll in closed form\<close>

text \<open>
  \<open>plus_days\<close> is date arithmetic without the range check; \<open>next_business_day\<close>
  is the roll as the specification words it, Saturday and Sunday moving to Monday.
\<close>

definition plus_days :: "date \<Rightarrow> int \<Rightarrow> date" where
  "plus_days d n = ord2ymd (toordinal d + n)"

definition next_business_day :: "date \<Rightarrow> date" where
  "next_business_day d =
    (if weekday d = 5 then plus_days d 2 else if weekday d = 6 then plus_days d 1 else d)"

lemma date_add_days_ok:
  assumes "1 \<le> toordinal d + n" "toordinal d + n \<le> MAXORDINAL"
  shows "date_add_days d n = Inr (plus_days d n)"
    and "valid_date (plus_days d n)" and "toordinal (plus_days d n) = toordinal d + n"
  using assms ord2ymd_valid [of "toordinal d + n"]
  by (simp_all add: date_add_days_def plus_days_def)

lemma weekday_plus_days:
  assumes "1 \<le> toordinal d + n" "toordinal d + n \<le> MAXORDINAL"
  shows "weekday (plus_days d n) = (toordinal d + n + 6) mod 7"
  unfolding weekday_def date_add_days_ok(3) [OF assms] ..

lemma weekend_not_last:
  assumes "valid_date d"
  shows "weekday d = 6 \<Longrightarrow> toordinal d + 1 \<le> MAXORDINAL"
    and "weekday d = 5 \<Longrightarrow> toordinal d + 2 \<le> MAXORDINAL"
proof -
  define t where "t = toordinal d"
  have le: "t \<le> 3652059" using toordinal_range(2) [OF assms] by (simp add: t_def MAXORDINAL_def)
  have w: "weekday d = (t + 6) mod 7" by (simp add: weekday_def t_def)
  have n1: "t \<noteq> 3652059" if "weekday d = 5 \<or> weekday d = 6"
  proof
    assume "t = 3652059"
    then have "weekday d = 4" unfolding w by simp
    with that show False by simp
  qed
  have n2: "t \<noteq> 3652058" if "weekday d = 5"
  proof
    assume "t = 3652058"
    then have "weekday d = 3" unfolding w by simp
    with that show False by simp
  qed
  show "weekday d = 6 \<Longrightarrow> toordinal d + 1 \<le> MAXORDINAL"
    using le n1 unfolding t_def [symmetric] MAXORDINAL_def by fastforce
  show "weekday d = 5 \<Longrightarrow> toordinal d + 2 \<le> MAXORDINAL"
    using le n1 n2 unfolding t_def [symmetric] MAXORDINAL_def by fastforce
qed

lemma mod7_shift:
  "(a::int) mod 7 = 5 \<Longrightarrow> (a + 1) mod 7 = 6"
  "(a::int) mod 7 = 5 \<Longrightarrow> (a + 2) mod 7 = 0"
  "(a::int) mod 7 = 6 \<Longrightarrow> (a + 1) mod 7 = 0"
proof -
  have two: "a + 2 = (a + 1) + 1" by simp
  show "a mod 7 = 5 \<Longrightarrow> (a + 1) mod 7 = 6" by (simp only: mod7_succ) simp
  show "a mod 7 = 6 \<Longrightarrow> (a + 1) mod 7 = 0" by (simp only: mod7_succ) simp
  show "a mod 7 = 5 \<Longrightarrow> (a + 2) mod 7 = 0"
    unfolding two by (simp only: mod7_succ [of "a + 1"] mod7_succ [of a]) simp
qed

lemma business_date_weekday:
  assumes "weekday d \<le> 4"
  shows "business_date d = Inr d"
  using assms by (subst business_date.simps) simp

lemma business_date_closed:
  assumes "valid_date d"
  shows "business_date d = Inr (next_business_day d)"
proof -
  note r = toordinal_range [OF assms]
  consider (sat) "weekday d = 5" | (sun) "weekday d = 6" | (wk) "weekday d \<le> 4"
    using weekday_range [of d] by linarith
  then show ?thesis
  proof cases
    case wk
    then show ?thesis by (simp add: business_date_weekday next_business_day_def)
  next
    case sun
    have b: "1 \<le> toordinal d + 1" "toordinal d + 1 \<le> MAXORDINAL"
      using r weekend_not_last(1) [OF assms sun] by simp_all
    have "weekday (plus_days d 1) = 0"
      unfolding weekday_plus_days [OF b] using sun mod7_shift(3) [of "toordinal d + 6"]
      by (simp add: weekday_def add.commute add.left_commute)
    then have "business_date (plus_days d 1) = Inr (plus_days d 1)"
      by (simp add: business_date_weekday)
    then show ?thesis using sun date_add_days_ok(1) [OF b]
      by (subst business_date.simps) (simp add: next_business_day_def)
  next
    case sat
    have b1: "1 \<le> toordinal d + 1" "toordinal d + 1 \<le> MAXORDINAL"
      and b2: "1 \<le> toordinal d + 2" "toordinal d + 2 \<le> MAXORDINAL"
      using r weekend_not_last(2) [OF assms sat] by simp_all
    have w1: "weekday (plus_days d 1) = 6"
      unfolding weekday_plus_days [OF b1] using sat mod7_shift(1) [of "toordinal d + 6"]
      by (simp add: weekday_def add.commute add.left_commute)
    have t1: "toordinal (plus_days d 1) + 1 = toordinal d + 2"
      using date_add_days_ok(3) [OF b1] by simp
    have p: "plus_days (plus_days d 1) 1 = plus_days d 2"
      using t1 by (simp add: plus_days_def add.commute)
    have w2: "weekday (plus_days d 2) = 0"
      unfolding weekday_plus_days [OF b2] using sat mod7_shift(2) [of "toordinal d + 6"]
      by (simp add: weekday_def add.commute add.left_commute)
    have s2: "business_date (plus_days d 2) = Inr (plus_days d 2)"
      using w2 by (simp add: business_date_weekday)
    have a2: "date_add_days (plus_days d 1) 1 = Inr (plus_days d 2)"
      using date_add_days_ok(1) [of "plus_days d 1" 1] b2 t1 p by simp
    have s1: "business_date (plus_days d 1) = Inr (plus_days d 2)"
      using w1 a2 s2 by (subst business_date.simps) simp
    show ?thesis using sat date_add_days_ok(1) [OF b1] s1
      by (subst business_date.simps) (simp add: next_business_day_def)
  qed
qed

lemma next_business_day_props:
  assumes "valid_date d"
  shows "valid_date (next_business_day d)"
    and "weekday (next_business_day d) \<le> 4"
    and "toordinal d \<le> toordinal (next_business_day d)"
    and "toordinal (next_business_day d) \<le> toordinal d + 2"
proof -
  note r = toordinal_range [OF assms]
  consider (sat) "weekday d = 5" | (sun) "weekday d = 6" | (wk) "weekday d \<le> 4"
    using weekday_range [of d] by linarith
  then have "valid_date (next_business_day d) \<and> weekday (next_business_day d) \<le> 4
     \<and> toordinal d \<le> toordinal (next_business_day d)
     \<and> toordinal (next_business_day d) \<le> toordinal d + 2"
  proof cases
    case wk
    then have "next_business_day d = d" by (auto simp: next_business_day_def)
    then show ?thesis using wk assms by simp
  next
    case sun
    have b: "1 \<le> toordinal d + 1" "toordinal d + 1 \<le> MAXORDINAL"
      using r weekend_not_last(1) [OF assms sun] by simp_all
    have "weekday (plus_days d 1) = 0"
      unfolding weekday_plus_days [OF b] using sun mod7_shift(3) [of "toordinal d + 6"]
      by (simp add: weekday_def add.commute add.left_commute)
    moreover have "next_business_day d = plus_days d 1" using sun by (simp add: next_business_day_def)
    ultimately show ?thesis using date_add_days_ok(2,3) [OF b] by simp
  next
    case sat
    have b: "1 \<le> toordinal d + 2" "toordinal d + 2 \<le> MAXORDINAL"
      using r weekend_not_last(2) [OF assms sat] by simp_all
    have "weekday (plus_days d 2) = 0"
      unfolding weekday_plus_days [OF b] using sat mod7_shift(2) [of "toordinal d + 6"]
      by (simp add: weekday_def add.commute add.left_commute)
    moreover have "next_business_day d = plus_days d 2" using sat by (simp add: next_business_day_def)
    ultimately show ?thesis using date_add_days_ok(2,3) [OF b] by simp
  qed
  then show "valid_date (next_business_day d)"
    and "weekday (next_business_day d) \<le> 4"
    and "toordinal d \<le> toordinal (next_business_day d)"
    and "toordinal (next_business_day d) \<le> toordinal d + 2"
    by simp_all
qed


subsection \<open>The coupon schedule as the specification words it\<close>

text \<open>
  Stepping from the first pay date one calendar year at a time, same month and day, while
  the stepped date is not after the last pay date. \<open>add_years\<close> is the stepped date,
  which need not exist in the calendar.
\<close>

definition add_years :: "date \<Rightarrow> int \<Rightarrow> date" where
  "add_years d k = Date (year d + k) (month d) (day d)"

definition yearly_dates :: "date \<Rightarrow> date \<Rightarrow> date list" where
  "yearly_dates first_pay_date last_pay_date =
     takeWhile (\<lambda>d. d \<le> last_pay_date)
       (map (\<lambda>i. add_years first_pay_date (int i)) [0..<nat (MAXYEAR + 1 - year first_pay_date)])"

definition spec_coupon :: "real \<Rightarrow> date \<Rightarrow> coupon" where
  "spec_coupon amount d =
     Coupon amount (next_business_day (plus_days d (- 9))) (next_business_day d)"

lemma series_loop_done:
  "\<not> d \<le> l \<Longrightarrow> series_loop d l amount cs = Inr cs"
  by (subst series_loop.simps) simp

lemma series_loop_overflow:
  assumes "d \<le> l" "toordinal d \<le> 9"
  shows "series_loop d l amount cs = Inl OverflowError"
  using assms by (subst series_loop.simps) (simp add: date_sub_days_def date_add_days_def)

lemma series_loop_step:
  assumes "valid_date d" "d \<le> l" "9 < toordinal d"
  shows "series_loop d l amount cs =
     (case py_date (year d + 1) (month d) (day d) of
        Inl e \<Rightarrow> Inl e
      | Inr next_date \<Rightarrow> series_loop next_date l amount (cs @ [spec_coupon amount d]))"
proof -
  have b: "1 \<le> toordinal d + (- 9)" "toordinal d + (- 9) \<le> MAXORDINAL"
    using assms(3) toordinal_range(2) [OF assms(1)] by simp_all
  note s = date_add_days_ok [OF b]
  show ?thesis
    unfolding spec_coupon_def using assms(2)
    by (subst series_loop.simps)
       (simp add: date_sub_days_def s(1) business_date_closed [OF s(2)]
          business_date_closed [OF assms(1)])
qed

lemma add_years_valid:
  assumes "valid_date d" "\<not> (month d = 2 \<and> day d = 29)" "0 \<le> k" "year d + k \<le> MAXYEAR"
  shows "valid_date (add_years d k)"
proof -
  have m: "1 \<le> month d" "month d \<le> 12" and dd: "day d \<le> days_in_month (year d) (month d)"
    using assms(1) by (simp_all add: valid_date_def)
  have "day d \<le> days_in_month (year d + k) (month d)"
  proof (cases "month d = 2")
    case True
    then have "day d \<le> 29" using dd by (simp add: days_in_month_def split: if_splits)
    then have "day d \<le> 28" using assms(2) True by simp
    then show ?thesis using True by (simp add: days_in_month_def)
  next
    case False
    then show ?thesis using dd by (simp add: days_in_month_def)
  qed
  then show ?thesis using assms by (simp add: valid_date_def add_years_def MINYEAR_def)
qed

lemma py_date_next_year:
  assumes "valid_date d" "\<not> (month d = 2 \<and> day d = 29)" "year d < MAXYEAR"
  shows "py_date (year d + 1) (month d) (day d) = Inr (add_years d 1)"
  using add_years_valid [OF assms(1,2), of 1] assms(3) by (simp add: py_date_def add_years_def)

lemma leap_next: "is_leap y \<Longrightarrow> \<not> is_leap (y + 1)"
proof -
  assume "is_leap y"
  then have "y mod 4 = 0" by (simp add: is_leap_def)
  then have "(y + 1) mod 4 \<noteq> 0" by presburger
  then show ?thesis by (simp add: is_leap_def)
qed

lemma py_date_feb29:
  assumes "valid_date d" "month d = 2" "day d = 29"
  shows "py_date (year d + 1) (month d) (day d) = Inl ValueError" and "9 < toordinal d"
proof -
  have leap: "is_leap (year d)"
    using assms by (simp add: valid_date_def days_in_month_def split: if_splits)
  have "\<not> is_leap (year d + 1)" by (rule leap_next [OF leap])
  then show "py_date (year d + 1) (month d) (day d) = Inl ValueError"
    using assms(2,3) by (simp add: py_date_def valid_date_def days_in_month_def)
  have "0 \<le> days_before_year (year d)"
    using dby_mono [of 1 "year d"] assms(1) by (simp add: valid_date_def MINYEAR_def days_before_year_def)
  then show "9 < toordinal d"
    using assms(2,3) by (simp add: toordinal_def ymd2ord_def days_before_month_def)
qed

lemma series_loop_feb29:
  assumes "valid_date d" "month d = 2" "day d = 29" "d \<le> l"
  shows "series_loop d l amount cs = Inl ValueError"
  using series_loop_step [OF assms(1,4) py_date_feb29(2) [OF assms(1-3)]]
    py_date_feb29(1) [OF assms(1-3)] by simp

lemma yearly_dates_Nil: "\<not> d \<le> l \<Longrightarrow> yearly_dates d l = []"
proof -
  assume n: "\<not> d \<le> l"
  show ?thesis
  proof (cases "nat (MAXYEAR + 1 - year d)")
    case 0 then show ?thesis by (simp add: yearly_dates_def)
  next
    case (Suc k)
    have "add_years d 0 = d" by (simp add: add_years_def)
    then show ?thesis using n by (simp add: yearly_dates_def Suc upt_conv_Cons del: upt_Suc)
  qed
qed

lemma yearly_dates_Cons:
  assumes "d \<le> l" "year d \<le> MAXYEAR"
  shows "yearly_dates d l = d # yearly_dates (add_years d 1) l"
proof -
  define k where "k = nat (MAXYEAR + 1 - (year d + 1))"
  have n: "nat (MAXYEAR + 1 - year d) = Suc k" using assms(2) by (simp add: k_def)
  have u: "[0..<Suc k] = 0 # map Suc [0..<k]" by (simp add: upt_conv_Cons map_Suc_upt del: upt_Suc)
  have a0: "add_years d 0 = d" by (simp add: add_years_def)
  have a1: "add_years d (1 + int i) = add_years (add_years d 1) (int i)" for i
    by (simp add: add_years_def)
  have "yearly_dates d l = takeWhile (\<lambda>x. x \<le> l) (map (\<lambda>i. add_years d (int i)) (0 # map Suc [0..<k]))"
    unfolding yearly_dates_def n u ..
  also have "\<dots> = d # takeWhile (\<lambda>x. x \<le> l) (map (\<lambda>i. add_years (add_years d 1) (int i)) [0..<k])"
    using assms(1) by (simp add: a0 a1 comp_def del: upt_Suc)
  also have "takeWhile (\<lambda>x. x \<le> l) (map (\<lambda>i. add_years (add_years d 1) (int i)) [0..<k])
      = yearly_dates (add_years d 1) l"
    by (simp add: yearly_dates_def k_def add_years_def)
  finally show ?thesis .
qed

lemma series_loop_spec:
  assumes "valid_date d" "\<not> (month d = 2 \<and> day d = 29)" "d \<le> l \<longrightarrow> 9 < toordinal d"
    "l < Date MAXYEAR (month d) (day d)"
  shows "series_loop d l amount cs = Inr (cs @ map (spec_coupon amount) (yearly_dates d l))"
  using assms
proof (induction d l amount cs rule: series_loop.induct)
  case (1 d l amount cs)
  show ?case
  proof (cases "d \<le> l")
    case False
    then show ?thesis by (simp add: series_loop_done yearly_dates_Nil)
  next
    case True
    have t9: "9 < toordinal d" using "1.prems"(3) True by simp
    have "d < Date MAXYEAR (month d) (day d)" using True "1.prems"(4) by simp
    then have y: "year d < MAXYEAR" by (simp add: less_date_def)
    define nx where "nx = add_years d 1"
    have pd: "py_date (year d + 1) (month d) (day d) = Inr nx"
      unfolding nx_def by (rule py_date_next_year [OF "1.prems"(1,2) y])
    have vn: "valid_date nx"
      unfolding nx_def using add_years_valid [OF "1.prems"(1,2), of 1] y by simp
    have "d < nx" by (simp add: nx_def add_years_def less_date_def)
    then have tn: "9 < toordinal nx"
      using toordinal_strict_mono [OF "1.prems"(1) vn] t9 by simp
    have b: "1 \<le> toordinal d + (- 9)" "toordinal d + (- 9) \<le> MAXORDINAL"
      using t9 toordinal_range(2) [OF "1.prems"(1)] by simp_all
    note s = date_add_days_ok [OF b]
    have e1: "date_sub_days d 9 = Inr (plus_days d (- 9))" by (simp add: date_sub_days_def s(1))
    have e2: "business_date (plus_days d (- 9)) = Inr (next_business_day (plus_days d (- 9)))"
      by (rule business_date_closed [OF s(2)])
    have e3: "business_date d = Inr (next_business_day d)"
      by (rule business_date_closed [OF "1.prems"(1)])
    have n2: "\<not> (month nx = 2 \<and> day nx = 29)" using "1.prems"(2) by (simp add: nx_def add_years_def)
    have n3: "nx \<le> l \<longrightarrow> 9 < toordinal nx" using tn by simp
    have n4: "l < Date MAXYEAR (month nx) (day nx)" using "1.prems"(4) by (simp add: nx_def add_years_def)
    have "series_loop nx l amount (cs @ [spec_coupon amount d])
        = Inr ((cs @ [spec_coupon amount d]) @ map (spec_coupon amount) (yearly_dates nx l))"
      using "1.IH" [OF True e1 e2 e3 pd vn n2 n3 n4] by (simp add: spec_coupon_def)
    moreover have "yearly_dates d l = d # yearly_dates nx l"
      unfolding nx_def using True y by (intro yearly_dates_Cons) simp_all
    ultimately show ?thesis
      using series_loop_step [OF "1.prems"(1) True t9] pd by simp
  qed
qed

subsection \<open>Binary64 arithmetic\<close>

text \<open>
  A Python float is an IEEE 754 binary64 number, and every addition and multiplication
  rounds its exact result to the nearest such number, a tie going to the even one.
  \<open>float_exponent x\<close> is the exponent \<open>e\<close> with \<open>2 ^ e \<le> \<bar>x\<bar> < 2 ^ (e + 1)\<close>,
  found by halving or doubling. Overflow to infinity and NaN are not modelled.
\<close>

definition exponent_measure :: "real \<Rightarrow> nat" where
  "exponent_measure x = (if 1 \<le> \<bar>x\<bar> then nat \<lfloor>log 2 \<bar>x\<bar>\<rfloor> else nat \<lceil>- log 2 \<bar>x\<bar>\<rceil>)"

lemma exponent_measure_half:
  assumes "2 \<le> \<bar>x\<bar>"
  shows "exponent_measure (x / 2) < exponent_measure x"
proof -
  define l where "l = log 2 \<bar>x\<bar>"
  have x0: "x \<noteq> 0" using assms by auto
  have l1: "1 \<le> l" unfolding l_def using assms by (simp add: le_log_iff)
  have h: "log 2 \<bar>x / 2\<bar> = l - 1" unfolding l_def using x0 by (simp add: log_divide)
  have m1: "exponent_measure x = nat \<lfloor>l\<rfloor>" using assms by (simp add: exponent_measure_def l_def)
  have m2: "exponent_measure (x / 2) = nat \<lfloor>l - 1\<rfloor>"
    using assms unfolding exponent_measure_def h by simp
  have "nat \<lfloor>l - 1\<rfloor> < nat \<lfloor>l\<rfloor>" using l1 by linarith
  then show ?thesis unfolding m1 m2 .
qed

lemma exponent_measure_double:
  assumes "0 < \<bar>x\<bar>" "\<bar>x\<bar> < 1"
  shows "exponent_measure (x * 2) < exponent_measure x"
proof -
  define l where "l = log 2 \<bar>x\<bar>"
  have x0: "x \<noteq> 0" using assms by auto
  have l0: "l < 0" unfolding l_def using assms by simp
  have h: "log 2 \<bar>x * 2\<bar> = l + 1" unfolding l_def using x0 by (simp add: log_mult abs_mult)
  have m1: "exponent_measure x = nat \<lceil>- l\<rceil>" using assms by (simp add: exponent_measure_def l_def)
  show ?thesis
  proof (cases "1 \<le> \<bar>x * 2\<bar>")
    case True
    have "\<bar>x * 2\<bar> < 2" using assms by (simp add: abs_mult)
    then have "log 2 \<bar>x * 2\<bar> < 1" using True by (simp add: log_less_iff)
    then have "l + 1 < 1" unfolding h .
    then have a: "\<lfloor>l + 1\<rfloor> < 1" by (simp only: floor_less_iff of_int_1)
    have b: "0 < \<lceil>- l\<rceil>" using l0 by (simp only: less_ceiling_iff of_int_0 neg_0_less_iff_less)
    define i j where "i = \<lfloor>l + 1\<rfloor>" and "j = \<lceil>- l\<rceil>"
    have "nat i < nat j" using a b unfolding i_def [symmetric] j_def [symmetric] by linarith
    then have "nat \<lfloor>l + 1\<rfloor> < nat \<lceil>- l\<rceil>" unfolding i_def j_def .
    moreover have "exponent_measure (x * 2) = nat \<lfloor>l + 1\<rfloor>"
      using True unfolding exponent_measure_def h by simp
    ultimately show ?thesis unfolding m1 by simp
  next
    case False
    then have "exponent_measure (x * 2) = nat \<lceil>- (l + 1)\<rceil>"
      unfolding exponent_measure_def h by simp
    moreover have "nat \<lceil>- (l + 1)\<rceil> < nat \<lceil>- l\<rceil>" using l0 by linarith
    ultimately show ?thesis unfolding m1 by simp
  qed
qed

function float_exponent :: "real \<Rightarrow> int" where
  "float_exponent x =
    (if 2 \<le> \<bar>x\<bar> then float_exponent (x / 2) + 1
     else if 0 < \<bar>x\<bar> \<and> \<bar>x\<bar> < 1 then float_exponent (x * 2) - 1
     else 0)"
  by pat_completeness auto
termination
  by (relation "measure exponent_measure")
     (auto intro: exponent_measure_half exponent_measure_double)

declare float_exponent.simps [simp del]

text \<open>Rounding to the nearest integer, a half to the even one.\<close>

definition round_half_even :: "real \<Rightarrow> int" where
  "round_half_even x =
    (let f = \<lfloor>x\<rfloor>; r = x - of_int f
     in if r < 1 / 2 then f else if 1 / 2 < r then f + 1 else if even f then f else f + 1)"

text \<open>
  \<open>fl\<close> rounds a real number to binary64: to a multiple of the unit in the last of 53
  binary places, the exponent not below that of the subnormal numbers.
\<close>

definition pow2 :: "int \<Rightarrow> real" where
  "pow2 n = (if 0 \<le> n then 2 ^ nat n else 1 / 2 ^ nat (- n))"

definition fl :: "real \<Rightarrow> real" where
  "fl x =
    (let e = max (- 1022) (float_exponent x);
         ulp = pow2 (e - 52)
     in of_int (round_half_even (x / ulp)) * ulp)"

text \<open>
  The exponent brackets the magnitude, and rounding moves a number by at most half a unit
  in the last place.
\<close>

lemma pow2_pos: "0 < pow2 n"
  by (simp add: pow2_def)

lemma pow2_Suc: "pow2 (n + 1) = 2 * pow2 n"
proof (cases "0 \<le> n")
  case True
  then have "nat (n + 1) = Suc (nat n)" by simp
  then show ?thesis using True by (simp add: pow2_def)
next
  case False
  then have "nat (- n) = Suc (nat (- (n + 1)))" by simp
  then show ?thesis using False by (simp add: pow2_def)
qed

lemma pow2_pred: "pow2 (n - 1) = pow2 n / 2"
  using pow2_Suc [of "n - 1"] by simp

lemma float_exponent_bounds:
  assumes "x \<noteq> 0"
  shows "pow2 (float_exponent x) \<le> \<bar>x\<bar> \<and> \<bar>x\<bar> < pow2 (float_exponent x + 1)"
  using assms
proof (induction x rule: float_exponent.induct)
  case (1 x)
  consider (big) "2 \<le> \<bar>x\<bar>" | (small) "\<bar>x\<bar> < 1" | (unit) "1 \<le> \<bar>x\<bar>" "\<bar>x\<bar> < 2"
    by linarith
  then show ?case
  proof cases
    case big
    then have e: "float_exponent x = float_exponent (x / 2) + 1"
      by (subst float_exponent.simps) simp
    have "pow2 (float_exponent (x / 2)) \<le> \<bar>x / 2\<bar> \<and> \<bar>x / 2\<bar> < pow2 (float_exponent (x / 2) + 1)"
      using "1.IH"(1) [OF big] "1.prems" by simp
    then show ?thesis unfolding e pow2_Suc by simp
  next
    case small
    then have c: "\<not> 2 \<le> \<bar>x\<bar>" "0 < \<bar>x\<bar> \<and> \<bar>x\<bar> < 1" using "1.prems" by simp_all
    then have e: "float_exponent x = float_exponent (x * 2) - 1"
      by (subst float_exponent.simps) simp
    have "pow2 (float_exponent (x * 2)) \<le> \<bar>x * 2\<bar> \<and> \<bar>x * 2\<bar> < pow2 (float_exponent (x * 2) + 1)"
      using "1.IH"(2) [OF c] "1.prems" by simp
    then show ?thesis unfolding e pow2_pred by (simp add: pow2_Suc abs_mult)
  next
    case unit
    then have "float_exponent x = 0" by (subst float_exponent.simps) simp
    then show ?thesis using unit by (simp add: pow2_def)
  qed
qed

lemma round_half_even_error: "\<bar>of_int (round_half_even y) - y\<bar> \<le> 1 / 2"
proof -
  define f where "f = \<lfloor>y\<rfloor>"
  define r where "r = y - of_int f"
  have r: "0 \<le> r" "r < 1" unfolding r_def f_def by linarith+
  have y: "y = of_int f + r" by (simp add: r_def)
  have "round_half_even y = f \<and> r \<le> 1 / 2 \<or> round_half_even y = f + 1 \<and> 1 / 2 \<le> r"
    unfolding round_half_even_def Let_def f_def [symmetric] r_def [symmetric] by auto
  then show ?thesis using r unfolding y by auto
qed

lemma fl_error:
  "\<bar>fl x - x\<bar> \<le> pow2 (max (- 1022) (float_exponent x) - 52) / 2"
proof -
  define u where "u = pow2 (max (- 1022) (float_exponent x) - 52)"
  have u: "0 < u" unfolding u_def by (rule pow2_pos)
  have "fl x - x = (of_int (round_half_even (x / u)) - x / u) * u"
    using u by (simp add: fl_def Let_def u_def [symmetric] algebra_simps)
  then have "\<bar>fl x - x\<bar> = \<bar>of_int (round_half_even (x / u)) - x / u\<bar> * u"
    using u by (simp add: abs_mult)
  also have "\<dots> \<le> 1 / 2 * u"
    using round_half_even_error [of "x / u"] u by (intro mult_right_mono) simp_all
  finally show ?thesis by (simp add: u_def)
qed

text \<open>The numbers that are floats are those that rounding leaves as they are.\<close>

definition is_float :: "real \<Rightarrow> bool" where
  "is_float x = (fl x = x)"

definition fadd :: "real \<Rightarrow> real \<Rightarrow> real" where
  "fadd a b = fl (a + b)"

definition fmul :: "real \<Rightarrow> real \<Rightarrow> real" where
  "fmul a b = fl (a * b)"

text \<open>The builtin \<^verbatim>\<open>sum\<close> on floats: from the left, starting at the integer 0.\<close>

definition float_sum :: "real list \<Rightarrow> real" where
  "float_sum xs = foldl fadd 0 xs"

text \<open>
  \<^verbatim>\<open>calculate_dirty_value\<close> once more, with every product and every sum rounded as
  the interpreter rounds it.
\<close>

definition calculate_dirty_value_float :: "FixedRateACGB \<Rightarrow> (date \<Rightarrow> real) \<Rightarrow> date \<Rightarrow> real" where
  "calculate_dirty_value_float self discount_curve today =
    (let future_coupons = filter (\<lambda>c. ex_date c > today) (coupons self);
         discounted_coupon_value =
           float_sum (map (\<lambda>c. fmul (discount_curve (payment_date c)) (coupon_amount c)) future_coupons);
         discounted_face_value = fmul (discount_curve (maturity self)) (principle self)
     in fadd discounted_coupon_value discounted_face_value)"

lemmas float_eval =
  fl_def float_exponent.simps round_half_even_def pow2_def fadd_def fmul_def float_sum_def
  is_float_def Let_def

subsection \<open>The market price accessors\<close>

text \<open>
  A Python \<^verbatim>\<open>property\<close> is a descriptor holding an optional getter and an optional
  setter. \<^verbatim>\<open>@property\<close> builds one with the getter only; \<^verbatim>\<open>@p.setter\<close> returns a
  copy of \<^verbatim>\<open>p\<close> with the setter added, and the class binds that copy to the name of
  the decorated function. Reading through a property without a getter, or writing
  through one without a setter, raises AttributeError.
\<close>

record ('o, 'v) property =
  fget :: "('o \<Rightarrow> 'v) option"
  fset :: "('o \<Rightarrow> 'v \<Rightarrow> 'o) option"

definition property_getter :: "('o \<Rightarrow> 'v) \<Rightarrow> ('o, 'v) property" where
  "property_getter g = \<lparr>fget = Some g, fset = None\<rparr>"

definition property_setter :: "('o, 'v) property \<Rightarrow> ('o \<Rightarrow> 'v \<Rightarrow> 'o) \<Rightarrow> ('o, 'v) property" where
  "property_setter prop s = prop\<lparr>fset := Some s\<rparr>"

definition read_attr :: "('o, 'v) property \<Rightarrow> 'o \<Rightarrow> error + 'v" where
  "read_attr prop obj = (case fget prop of None \<Rightarrow> Inl AttributeError | Some g \<Rightarrow> Inr (g obj))"

definition write_attr :: "('o, 'v) property \<Rightarrow> 'o \<Rightarrow> 'v \<Rightarrow> error + 'o" where
  "write_attr prop obj v = (case fset prop of None \<Rightarrow> Inl AttributeError | Some s \<Rightarrow> Inr (s obj v))"

text \<open>
  The class attribute \<^verbatim>\<open>market_value\<close> is the property with the getter alone; the
  class attribute \<^verbatim>\<open>market_dirty_price\<close> is what \<^verbatim>\<open>@market_value.setter\<close> returns for
  the function of that name.
\<close>

definition market_value :: "(FixedRateACGB, real) property" where
  "market_value = property_getter (\<lambda>self. priv_market_dirty_price self)"

definition market_dirty_price :: "(FixedRateACGB, real) property" where
  "market_dirty_price =
     property_setter market_value (\<lambda>self v. self\<lparr>priv_market_dirty_price := v\<rparr>)"

section \<open>discount\_curve.py: year fractions, yields and the curve fit\<close>

record DiscountFitOptions =
  knot_count :: int
  extenion_days :: int

definition DiscountFitOptions_init :: DiscountFitOptions where
  "DiscountFitOptions_init = \<lparr>knot_count = 5, extenion_days = 100\<rparr>"

definition date_to_year_fraction_act_365 :: "date \<Rightarrow> date \<Rightarrow> real" where
  "date_to_year_fraction_act_365 today future_date =
    (let days = days_between future_date today;
         year_frac = real_of_int days / 365
     in year_frac)"

text \<open>The builtin \<^verbatim>\<open>round\<close> on a float is \<open>round_half_even\<close>.\<close>

definition year_fraction_act_365_to_date :: "date \<Rightarrow> real \<Rightarrow> error + date" where
  "year_fraction_act_365_to_date today year_fraction =
    (let days = round_half_even (year_fraction * 365) in date_add_days today days)"






text \<open>
  Indexing a list, \<^verbatim>\<open>xs[i]\<close>: an index from 0 up to the length reads from the
  front, an index from minus the length up to -1 reads from the back, and any other
  index raises IndexError.
\<close>

definition list_index :: "'a list \<Rightarrow> int \<Rightarrow> error + 'a" where
  "list_index xs i =
    (if 0 \<le> i \<and> i < int (length xs) then Inr (xs ! nat i)
     else if - int (length xs) \<le> i \<and> i < 0 then Inr (xs ! nat (int (length xs) + i))
     else Inl IndexError)"

text \<open>
  \<^verbatim>\<open>numpy.linspace(start, stop, num)\<close>: \<open>num\<close> points from \<open>start\<close> in steps of
  \<open>(stop - start) / (num - 1)\<close>, the last one set to \<open>stop\<close> when there are at least two;
  a ValueError for a negative \<open>num\<close>.
\<close>

definition linspace :: "real \<Rightarrow> real \<Rightarrow> int \<Rightarrow> error + real list" where
  "linspace start stop num =
    (if num < 0 then Inl ValueError
     else let step = (stop - start) / real_of_int (num - 1);
              y = map (\<lambda>i. start + real i * step) [0..<nat num]
          in Inr (if num > 1 then butlast y @ [stop] else y))"

text \<open>
  The first part of \<^verbatim>\<open>fit_discount_curve\<close>, up to the knot locations, and the sorted
  bonds it goes on with.
\<close>

definition fit_knot_locations ::
  "FixedRateACGB list \<Rightarrow> DiscountFitOptions \<Rightarrow> date \<Rightarrow> error + (FixedRateACGB list \<times> real list)" where
  "fit_knot_locations bonds options today =
    (let sorted_bonds = sort_key maturity bonds
     in case list_index sorted_bonds 0 of
          Inl e \<Rightarrow> Inl e
        | Inr first_bond \<Rightarrow>
       (case list_index sorted_bonds (- 1) of
          Inl e \<Rightarrow> Inl e
        | Inr last_bond \<Rightarrow>
       (case date_sub_days (maturity first_bond) (extenion_days options) of
          Inl e \<Rightarrow> Inl e
        | Inr curve_start \<Rightarrow>
       (case date_add_days (maturity last_bond) (extenion_days options) of
          Inl e \<Rightarrow> Inl e
        | Inr curve_end \<Rightarrow>
            let curve_start = (if curve_start < today then today else curve_start);
                cv_start_yr_frac = date_to_year_fraction_act_365 today curve_start;
                cv_end_yr_frac = date_to_year_fraction_act_365 today curve_end
            in (case linspace cv_start_yr_frac cv_end_yr_frac (knot_count options) of
                  Inl e \<Rightarrow> Inl e
                | Inr knot_locations \<Rightarrow> Inr (sorted_bonds, knot_locations))))))"

text \<open>
  \<^verbatim>\<open>fit_discount_curve\<close>. The solver \<^verbatim>\<open>scipy.optimize.least_squares\<close> and the
  interpolation \<^verbatim>\<open>scipy.interpolate.CubicSpline\<close> are parameters: a solver takes the
  residual function and the initial guess and returns the fitted vector or raises; the
  interpolation takes the knot locations and the knot values and returns a curve or
  raises. The residual reads \<^verbatim>\<open>b.market_dirty_price\<close>, whose getter returns the
  field.
\<close>

definition fit_discount_curve ::
  "((real list \<Rightarrow> error + real list) \<Rightarrow> real list \<Rightarrow> error + real list)
   \<Rightarrow> (real list \<Rightarrow> real list \<Rightarrow> error + (real \<Rightarrow> real))
   \<Rightarrow> FixedRateACGB list \<Rightarrow> DiscountFitOptions \<Rightarrow> date \<Rightarrow> error + (date \<Rightarrow> real)" where
  "fit_discount_curve least_squares CubicSpline bonds options today =
    (case fit_knot_locations bonds options today of
       Inl e \<Rightarrow> Inl e
     | Inr (sorted_bonds, knot_locations) \<Rightarrow>
         let initial_guess = replicate (nat (knot_count options)) (1 / 100);
             resid = (\<lambda>knots.
               case CubicSpline knot_locations knots of
                 Inl e \<Rightarrow> Inl e
               | Inr curve \<Rightarrow>
                   let date_curve = (\<lambda>dt. curve (date_to_year_fraction_act_365 today dt))
                   in Inr (map (\<lambda>b. calculate_dirty_value b date_curve today - priv_market_dirty_price b)
                             sorted_bonds))
         in case least_squares resid initial_guess of
              Inl e \<Rightarrow> Inl e
            | Inr fitted_knots \<Rightarrow>
               (case CubicSpline knot_locations fitted_knots of
                  Inl e \<Rightarrow> Inl e
                | Inr fitted_curve \<Rightarrow>
                    Inr (\<lambda>dt. fitted_curve (date_to_year_fraction_act_365 today dt))))"


text \<open>
  A trivial solver, which returns its initial guess, and a trivial interpolation, the
  constant curve 1: they stand for the two parameters in closed instances.
\<close>

definition const_solver :: "(real list \<Rightarrow> error + real list) \<Rightarrow> real list \<Rightarrow> error + real list" where
  "const_solver resid guess = Inr guess"

definition flat_spline :: "real list \<Rightarrow> real list \<Rightarrow> error + (real \<Rightarrow> real)" where
  "flat_spline xs ys = Inr (\<lambda>t. 1)"


section \<open>Properties of the coupon schedule\<close>

lemmas calendar_defs =
  toordinal_def ymd2ord_def days_before_year_def days_before_month_def days_in_month_def
  is_leap_def MAXORDINAL_def MINYEAR_def MAXYEAR_def ord2ymd_def Let_def DI400Y_def DI100Y_def
  DI4Y_def month_of_yday_def weekday_def valid_date_def py_date_def date_add_days_def
  date_sub_days_def less_eq_date_def less_date_def plus_days_def days_between_def

text \<open>
  C10: \<^verbatim>\<open>construct_yearly_coupon_series\<close> is partial. Whenever the first pay date is a
  29th of February and the loop body runs (the first pay date is not after the last pay
  date), the step \<^verbatim>\<open>date(coupon_date.year + 1, coupon_date.month, coupon_date.day)\<close>
  names a day that does not exist and raises ValueError, so the function raises instead
  of returning a coupon list.
\<close>

theorem construct_yearly_coupon_series_feb29_raises:
  assumes "valid_date first_pay_date"
    and "month first_pay_date = 2" and "day first_pay_date = 29"
    and "first_pay_date \<le> last_pay_date"
  shows "py_date (year first_pay_date + 1) (month first_pay_date) (day first_pay_date) = Inl ValueError
       \<and> construct_yearly_coupon_series first_pay_date last_pay_date rate p = Inl ValueError"
  using py_date_feb29(1) [OF assms(1-3)] series_loop_feb29 [OF assms]
  by (simp add: construct_yearly_coupon_series_def)

theorem construct_yearly_coupon_series_feb29_raises_witness:
  "valid_date (Date 2024 2 29) \<and> Date 2024 2 29 \<le> Date 2028 2 29
   \<and> py_date 2025 2 29 = Inl ValueError
   \<and> construct_yearly_coupon_series (Date 2024 2 29) (Date 2028 2 29) (3 / 100) 100 = Inl ValueError"
  using construct_yearly_coupon_series_feb29_raises [of "Date 2024 2 29" "Date 2028 2 29" "3 / 100" 100]
  by (simp add: calendar_defs)

lemma spec_coupon_sel [simp]:
  "ex_date (spec_coupon amount d) = next_business_day (plus_days d (- 9))"
  "payment_date (spec_coupon amount d) = next_business_day d"
  "coupon_amount (spec_coupon amount d) = amount"
  by (simp_all add: spec_coupon_def Coupon_def)

lemma spec_coupon_ordered:
  assumes "valid_date d" "9 < toordinal d"
  shows "ex_date (spec_coupon amount d) \<le> payment_date (spec_coupon amount d)"
proof -
  have b: "1 \<le> toordinal d + (- 9)" "toordinal d + (- 9) \<le> MAXORDINAL"
    using assms(2) toordinal_range(2) [OF assms(1)] by simp_all
  note s = date_add_days_ok(2,3) [OF b]
  note e = next_business_day_props [OF s(1)]
  note p = next_business_day_props [OF assms(1)]
  have "toordinal (next_business_day (plus_days d (- 9))) \<le> toordinal (next_business_day d)"
    using e(4) p(3) s(2) by simp
  then show ?thesis
    using toordinal_le_iff [OF e(1) p(1)] by simp
qed

lemma after_day9:
  assumes "valid_date d"
  shows "Date 1 1 9 < d \<longleftrightarrow> 9 < toordinal d"
proof -
  have v: "valid_date (Date 1 1 9)" and t: "toordinal (Date 1 1 9) = 9"
    by (simp_all add: calendar_defs)
  show ?thesis using toordinal_less_iff [OF v assms] t by simp
qed

lemma series_loop_inv:
  assumes "valid_date d" "series_loop d l amount cs = Inr res"
    "\<forall>c\<in>set cs. ex_date c \<le> payment_date c"
  shows "\<forall>c\<in>set res. ex_date c \<le> payment_date c"
  using assms
proof (induction d l amount cs rule: series_loop.induct)
  case (1 d l amount cs)
  show ?case
  proof (cases "d \<le> l")
    case False
    then show ?thesis using "1.prems" by (simp add: series_loop_done)
  next
    case True
    have t9: "9 < toordinal d"
    proof (rule ccontr)
      assume "\<not> 9 < toordinal d"
      then have "series_loop d l amount cs = Inl OverflowError"
        using True by (intro series_loop_overflow) simp_all
      then show False using "1.prems"(2) by simp
    qed
    note st = series_loop_step [OF "1.prems"(1) True t9, of amount cs]
    obtain nx where pd: "py_date (year d + 1) (month d) (day d) = Inr nx"
      using st "1.prems"(2) by (cases "py_date (year d + 1) (month d) (day d)") simp_all
    have vn: "valid_date nx" using pd by (auto simp: py_date_def split: if_splits)
    have b: "1 \<le> toordinal d + (- 9)" "toordinal d + (- 9) \<le> MAXORDINAL"
      using t9 toordinal_range(2) [OF "1.prems"(1)] by simp_all
    note s = date_add_days_ok [OF b]
    have e1: "date_sub_days d 9 = Inr (plus_days d (- 9))" by (simp add: date_sub_days_def s(1))
    have e2: "business_date (plus_days d (- 9)) = Inr (next_business_day (plus_days d (- 9)))"
      by (rule business_date_closed [OF s(2)])
    have e3: "business_date d = Inr (next_business_day d)"
      by (rule business_date_closed [OF "1.prems"(1)])
    have r: "series_loop nx l amount (cs @ [spec_coupon amount d]) = Inr res"
      using st pd "1.prems"(2) by simp
    have i: "\<forall>c\<in>set (cs @ [spec_coupon amount d]). ex_date c \<le> payment_date c"
      using "1.prems"(3) spec_coupon_ordered [OF "1.prems"(1) t9, of amount] by simp
    show ?thesis
      using "1.IH" [OF True e1 e2 e3 pd vn] r i by (simp add: spec_coupon_def)
  qed
qed

lemmas schedule_eval =
  construct_yearly_coupon_series_def series_loop.simps business_date.simps calendar_defs

text \<open>
  C8: every coupon produced by \<^verbatim>\<open>construct_yearly_coupon_series\<close>, and so every
  coupon of a bond built by \<^verbatim>\<open>construct\<close>, has its ex-date on or before its
  payment date, on all inputs on which the construction returns.
\<close>

theorem coupon_ex_date_before_payment_date:
  assumes "valid_date first_pay_date" and "valid_date second_pay_date"
  shows "(construct_yearly_coupon_series first_pay_date last_pay_date rate p = Inr cs
            \<longrightarrow> (\<forall>c\<in>set cs. ex_date c \<le> payment_date c))
       \<and> (construct first_pay_date second_pay_date last_pay_date rate p = Inr bond
            \<longrightarrow> (\<forall>c\<in>set (coupons bond). ex_date c \<le> payment_date c))"
proof (intro conjI impI)
  assume "construct_yearly_coupon_series first_pay_date last_pay_date rate p = Inr cs"
  then show "\<forall>c\<in>set cs. ex_date c \<le> payment_date c"
    using series_loop_inv [OF assms(1), of last_pay_date "p * rate" "[]" cs]
    by (simp add: construct_yearly_coupon_series_def)
next
  assume c: "construct first_pay_date second_pay_date last_pay_date rate p = Inr bond"
  then obtain coupons_a coupons_b where
    a: "series_loop first_pay_date last_pay_date (p * (rate / 2)) [] = Inr coupons_a" and
    b: "series_loop second_pay_date last_pay_date (p * (rate / 2)) [] = Inr coupons_b" and
    e: "coupons bond = coupons_a @ coupons_b"
    by (auto simp: construct_def construct_yearly_coupon_series_def FixedRateACGB_init_def
          split: sum.splits)
  show "\<forall>c\<in>set (coupons bond). ex_date c \<le> payment_date c"
    using series_loop_inv [OF assms(1) a] series_loop_inv [OF assms(2) b] e by auto
qed

theorem coupon_ex_date_before_payment_date_witness:
  "valid_date (Date 2020 11 21) \<and> valid_date (Date 2021 5 21)
   \<and> construct_yearly_coupon_series (Date 2020 11 21) (Date 2021 5 21) (1 / 100) 100
       = Inr [Coupon 1 (Date 2020 11 12) (Date 2020 11 23)]
   \<and> construct (Date 2020 11 21) (Date 2021 5 21) (Date 2021 5 21) (1 / 100) 100
       = Inr (FixedRateACGB_init 100
           [Coupon (1 / 2) (Date 2020 11 12) (Date 2020 11 23),
            Coupon (1 / 2) (Date 2021 5 12) (Date 2021 5 21)] (Date 2021 5 21))
   \<and> Date 2020 11 12 \<le> Date 2020 11 23 \<and> Date 2021 5 12 \<le> Date 2021 5 21"
proof -
  have v: "valid_date (Date 2020 11 21)" "valid_date (Date 2021 5 21)"
    by (simp_all add: calendar_defs)
  have s: "construct_yearly_coupon_series (Date 2020 11 21) (Date 2021 5 21) (1 / 100) 100
       = Inr [Coupon 1 (Date 2020 11 12) (Date 2020 11 23)]"
    by (simp add: schedule_eval)
  have s1: "construct_yearly_coupon_series (Date 2020 11 21) (Date 2021 5 21) (1 / 200) 100
       = Inr [Coupon (1 / 2) (Date 2020 11 12) (Date 2020 11 23)]"
    by (simp add: schedule_eval)
  have s2: "construct_yearly_coupon_series (Date 2021 5 21) (Date 2021 5 21) (1 / 200) 100
       = Inr [Coupon (1 / 2) (Date 2021 5 12) (Date 2021 5 21)]"
    by (simp add: schedule_eval)
  have c: "construct (Date 2020 11 21) (Date 2021 5 21) (Date 2021 5 21) (1 / 100) 100
       = Inr (FixedRateACGB_init 100
           [Coupon (1 / 2) (Date 2020 11 12) (Date 2020 11 23),
            Coupon (1 / 2) (Date 2021 5 12) (Date 2021 5 21)] (Date 2021 5 21))"
    by (simp add: construct_def s1 s2)
  from coupon_ex_date_before_payment_date [OF v, of "Date 2021 5 21" "1 / 100" 100
      "[Coupon 1 (Date 2020 11 12) (Date 2020 11 23)]"
      "FixedRateACGB_init 100
           [Coupon (1 / 2) (Date 2020 11 12) (Date 2020 11 23),
            Coupon (1 / 2) (Date 2021 5 12) (Date 2021 5 21)] (Date 2021 5 21)"] s c
  have "Date 2020 11 12 \<le> Date 2020 11 23 \<and> Date 2021 5 12 \<le> Date 2021 5 21"
    by (simp add: Coupon_def FixedRateACGB_init_def)
  then show ?thesis using v s c by simp
qed

lemma takeWhile_map_upt:
  assumes "k \<le> n" "\<forall>i<k. P (f i)" "k < n \<longrightarrow> \<not> P (f k)"
  shows "takeWhile P (map f [0..<n]) = map f [0..<k]"
proof -
  have split: "[0..<n] = [0..<k] @ [k..<n]"
    using assms(1) upt_add_eq_append [of 0 k "n - k"] by simp
  have rest: "takeWhile P (map f [k..<n]) = []"
  proof (cases "k < n")
    case True
    then show ?thesis using assms(3) by (simp add: upt_conv_Cons del: upt_Suc)
  next
    case False
    then show ?thesis by simp
  qed
  have "takeWhile P (map f [0..<n]) = map f [0..<k] @ takeWhile P (map f [k..<n])"
    unfolding split map_append using assms(2) by (intro takeWhile_append2) auto
  then show ?thesis using rest by simp
qed

lemma yearly_dates_whole_years:
  assumes "year d + int N \<le> MAXYEAR"
  shows "yearly_dates d (Date (year d + int N) (month d) (day d))
       = map (\<lambda>i. add_years d (int i)) [0..<N + 1]"
  unfolding yearly_dates_def
proof (rule takeWhile_map_upt)
  show "N + 1 \<le> nat (MAXYEAR + 1 - year d)" using assms by simp
  show "\<forall>i<N + 1. add_years d (int i) \<le> Date (year d + int N) (month d) (day d)"
    by (auto simp: add_years_def less_eq_date_def)
  show "N + 1 < nat (MAXYEAR + 1 - year d) \<longrightarrow>
      \<not> add_years d (int (N + 1)) \<le> Date (year d + int N) (month d) (day d)"
    by (simp add: add_years_def less_eq_date_def)
qed

text \<open>
  C3, as it holds of the code: for every valid first pay date that is not a 29th of
  February and lies after 0001-01-09, and every last pay date before the first pay date's
  month and day in year 9999, \<^verbatim>\<open>construct_yearly_coupon_series\<close>
  returns exactly the coupons obtained by stepping from the first pay date one calendar
  year at a time (same month and day) while the stepped date is not after the last pay
  date; each coupon has as payment date the roll of the stepped date, as ex-date the roll
  of the stepped date minus 9 days, and as amount principal times rate. When the first
  pay date is after the last pay date, the result is the empty list, for any dates.
\<close>

theorem construct_yearly_coupon_series_stepping:
  assumes "valid_date first_pay_date"
    and "\<not> (month first_pay_date = 2 \<and> day first_pay_date = 29)"
    and "Date 1 1 9 < first_pay_date"
    and "last_pay_date < Date 9999 (month first_pay_date) (day first_pay_date)"
  shows "construct_yearly_coupon_series first_pay_date last_pay_date rate p
           = Inr (map (spec_coupon (p * rate)) (yearly_dates first_pay_date last_pay_date))
       \<and> (\<forall>d l. l < d \<longrightarrow> construct_yearly_coupon_series d l rate p = Inr [])"
proof
  have "9 < toordinal first_pay_date" using after_day9 [OF assms(1)] assms(3) by simp
  then show "construct_yearly_coupon_series first_pay_date last_pay_date rate p
           = Inr (map (spec_coupon (p * rate)) (yearly_dates first_pay_date last_pay_date))"
    using series_loop_spec [OF assms(1,2), of last_pay_date "p * rate" "[]"] assms(4)
    by (simp add: construct_yearly_coupon_series_def MAXYEAR_def)
  show "\<forall>d l. l < d \<longrightarrow> construct_yearly_coupon_series d l rate p = Inr []"
    by (simp add: construct_yearly_coupon_series_def series_loop_done not_le)
qed

theorem construct_yearly_coupon_series_stepping_witness:
  "valid_date (Date 2020 11 21) \<and> Date 1 1 9 < Date 2020 11 21 \<and> Date 2022 11 21 < Date 9999 11 21
   \<and> yearly_dates (Date 2020 11 21) (Date 2022 11 21)
       = [Date 2020 11 21, Date 2021 11 21, Date 2022 11 21]
   \<and> construct_yearly_coupon_series (Date 2020 11 21) (Date 2022 11 21) (1 / 100) 100
       = Inr [Coupon 1 (Date 2020 11 12) (Date 2020 11 23),
              Coupon 1 (Date 2021 11 12) (Date 2021 11 22),
              Coupon 1 (Date 2022 11 14) (Date 2022 11 21)]
   \<and> Date 2020 7 20 < Date 2020 11 21
   \<and> construct_yearly_coupon_series (Date 2020 11 21) (Date 2020 7 20) (1 / 100) 100 = Inr []"
proof -
  have h: "valid_date (Date 2020 11 21)" "\<not> (month (Date 2020 11 21) = 2 \<and> day (Date 2020 11 21) = 29)"
    "Date 1 1 9 < Date 2020 11 21"
    "Date 2022 11 21 < Date 9999 (month (Date 2020 11 21)) (day (Date 2020 11 21))"
    "Date 2020 7 20 < Date 2020 11 21"
    by (simp_all add: calendar_defs)
  have y: "yearly_dates (Date 2020 11 21) (Date 2022 11 21)
       = [Date 2020 11 21, Date 2021 11 21, Date 2022 11 21]"
    by (simp add: yearly_dates_Cons yearly_dates_Nil add_years_def less_eq_date_def MAXYEAR_def)
  have c: "map (spec_coupon 1) [Date 2020 11 21, Date 2021 11 21, Date 2022 11 21]
       = [Coupon 1 (Date 2020 11 12) (Date 2020 11 23),
          Coupon 1 (Date 2021 11 12) (Date 2021 11 22),
          Coupon 1 (Date 2022 11 14) (Date 2022 11 21)]"
    by (simp add: spec_coupon_def next_business_day_def calendar_defs)
  note t = construct_yearly_coupon_series_stepping [OF h(1-4), of "1 / 100" 100]
  show ?thesis using t h y c by simp
qed

theorem construct_yearly_coupon_series_stepping_counterexample:
  "Date 2020 2 29 \<le> Date 2021 3 1
   \<and> construct_yearly_coupon_series (Date 2020 2 29) (Date 2021 3 1) (1 / 100) 100 = Inl ValueError
   \<and> construct_yearly_coupon_series (Date 9999 1 1) (Date 9999 1 1) (1 / 100) 100 = Inl ValueError
   \<and> construct_yearly_coupon_series (Date 1 1 5) (Date 1 1 5) (1 / 100) 100 = Inl OverflowError"
  by (simp add: schedule_eval)

text \<open>
  C4, as it holds of the code: for every valid first pay date that is not a 29th of
  February and lies after 0001-01-09, and the last pay date exactly \<open>N\<close>
  whole years later and before year 9999,
  \<^verbatim>\<open>construct_yearly_coupon_series\<close> returns exactly
  \<open>N + 1\<close> coupons; the payment date and the ex-date of every coupon fall on
  a weekday (Monday to Friday); the payment date of the \<open>i\<close>-th coupon is the
  business-day roll of the first pay date advanced by \<open>i\<close> years, and its
  ex-date is the business-day roll of that advanced date minus 9 days (not of the payment
  date minus 9 days).
\<close>

theorem construct_yearly_coupon_series_whole_years:
  assumes "valid_date first_pay_date"
    and "\<not> (month first_pay_date = 2 \<and> day first_pay_date = 29)"
    and "Date 1 1 9 < first_pay_date"
    and "year first_pay_date + int N < 9999"
  shows "\<exists>cs. construct_yearly_coupon_series first_pay_date
              (Date (year first_pay_date + int N) (month first_pay_date) (day first_pay_date)) rate p
            = Inr cs
          \<and> length cs = N + 1
          \<and> (\<forall>i<N + 1.
                weekday (payment_date (cs ! i)) \<le> 4 \<and> weekday (ex_date (cs ! i)) \<le> 4
              \<and> coupon_amount (cs ! i) = p * rate
              \<and> business_date (add_years first_pay_date (int i)) = Inr (payment_date (cs ! i))
              \<and> (\<exists>shifted. date_sub_days (add_years first_pay_date (int i)) 9 = Inr shifted
                    \<and> business_date shifted = Inr (ex_date (cs ! i))))"
proof -
  define l where "l = Date (year first_pay_date + int N) (month first_pay_date) (day first_pay_date)"
  define cs where "cs = map (spec_coupon (p * rate)) (yearly_dates first_pay_date l)"
  have t9: "9 < toordinal first_pay_date" using after_day9 [OF assms(1)] assms(3) by simp
  have "l < Date MAXYEAR (month first_pay_date) (day first_pay_date)"
    using assms(4) by (simp add: l_def less_date_def MAXYEAR_def)
  then have r: "construct_yearly_coupon_series first_pay_date l rate p = Inr cs"
    using series_loop_spec [OF assms(1,2), of l "p * rate" "[]"] t9
    by (simp add: construct_yearly_coupon_series_def cs_def)
  have y: "yearly_dates first_pay_date l = map (\<lambda>i. add_years first_pay_date (int i)) [0..<N + 1]"
    unfolding l_def using assms(4) by (intro yearly_dates_whole_years) (simp add: MAXYEAR_def)
  have len: "length cs = N + 1" by (simp add: cs_def y)
  have nth: "cs ! i = spec_coupon (p * rate) (add_years first_pay_date (int i))" if "i < N + 1" for i
    using that unfolding cs_def y by (simp add: nth_map_upt del: upt_Suc)
  have each: "weekday (payment_date (cs ! i)) \<le> 4 \<and> weekday (ex_date (cs ! i)) \<le> 4
              \<and> coupon_amount (cs ! i) = p * rate
              \<and> business_date (add_years first_pay_date (int i)) = Inr (payment_date (cs ! i))
              \<and> (\<exists>shifted. date_sub_days (add_years first_pay_date (int i)) 9 = Inr shifted
                    \<and> business_date shifted = Inr (ex_date (cs ! i)))"
    if i: "i < N + 1" for i
  proof -
    define d where "d = add_years first_pay_date (int i)"
    have v: "valid_date d"
      unfolding d_def using assms(4) i by (intro add_years_valid [OF assms(1,2)]) (simp_all add: MAXYEAR_def)
    have "first_pay_date \<le> d" by (auto simp: d_def add_years_def less_eq_date_def)
    then have "toordinal first_pay_date \<le> toordinal d" using toordinal_le_iff [OF assms(1) v] by simp
    then have b: "1 \<le> toordinal d + (- 9)" "toordinal d + (- 9) \<le> MAXORDINAL"
      using t9 toordinal_range(2) [OF v] by simp_all
    note s = date_add_days_ok [OF b]
    have e1: "date_sub_days d 9 = Inr (plus_days d (- 9))" by (simp add: date_sub_days_def s(1))
    show ?thesis
      unfolding nth [OF i] d_def [symmetric]
      using e1 business_date_closed [OF v] business_date_closed [OF s(2)]
        next_business_day_props(2) [OF v] next_business_day_props(2) [OF s(2)]
      by simp
  qed
  show ?thesis using r len each unfolding l_def by blast
qed

theorem construct_yearly_coupon_series_whole_years_witness:
  "valid_date (Date 2020 11 21) \<and> Date 1 1 9 < Date 2020 11 21
   \<and> (\<exists>cs. construct_yearly_coupon_series (Date 2020 11 21) (Date 2022 11 21) (1 / 100) 100 = Inr cs
          \<and> length cs = 3
          \<and> weekday (payment_date (cs ! 0)) \<le> 4 \<and> weekday (ex_date (cs ! 0)) \<le> 4
          \<and> business_date (Date 2020 11 21) = Inr (payment_date (cs ! 0))
          \<and> (\<exists>shifted. date_sub_days (Date 2020 11 21) 9 = Inr shifted
                \<and> business_date shifted = Inr (ex_date (cs ! 0))))"
proof -
  have h: "valid_date (Date 2020 11 21)" "\<not> (month (Date 2020 11 21) = 2 \<and> day (Date 2020 11 21) = 29)"
    "Date 1 1 9 < Date 2020 11 21" "year (Date 2020 11 21) + int 2 < 9999"
    by (simp_all add: calendar_defs)
  from construct_yearly_coupon_series_whole_years [OF h, of "1 / 100" 100]
  obtain cs where cs: "construct_yearly_coupon_series (Date 2020 11 21) (Date 2022 11 21) (1 / 100) 100 = Inr cs"
      "length cs = 3"
      "\<forall>i<3. weekday (payment_date (cs ! i)) \<le> 4 \<and> weekday (ex_date (cs ! i)) \<le> 4
              \<and> coupon_amount (cs ! i) = 100 * (1 / 100)
              \<and> business_date (add_years (Date 2020 11 21) (int i)) = Inr (payment_date (cs ! i))
              \<and> (\<exists>shifted. date_sub_days (add_years (Date 2020 11 21) (int i)) 9 = Inr shifted
                    \<and> business_date shifted = Inr (ex_date (cs ! i)))"
    by auto
  from spec [OF cs(3), of 0] have "weekday (payment_date (cs ! 0)) \<le> 4 \<and> weekday (ex_date (cs ! 0)) \<le> 4
       \<and> business_date (add_years (Date 2020 11 21) (int 0)) = Inr (payment_date (cs ! 0))
       \<and> (\<exists>shifted. date_sub_days (add_years (Date 2020 11 21) (int 0)) 9 = Inr shifted
             \<and> business_date shifted = Inr (ex_date (cs ! 0)))"
    by simp
  then show ?thesis using h(1,3) cs(1,2) by (auto simp: add_years_def)
qed

theorem construct_yearly_coupon_series_whole_years_counterexample:
  "construct_yearly_coupon_series (Date 2020 11 21) (Date 2020 11 21) (1 / 100) 100
     = Inr [Coupon 1 (Date 2020 11 12) (Date 2020 11 23)]
   \<and> date_sub_days (Date 2020 11 23) 9 = Inr (Date 2020 11 14)
   \<and> business_date (Date 2020 11 14) = Inr (Date 2020 11 16)
   \<and> Date 2020 11 16 \<noteq> Date 2020 11 12
   \<and> construct_yearly_coupon_series (Date 2020 2 29) (Date 2024 2 29) (1 / 100) 100 = Inl ValueError"
  by (simp add: schedule_eval)

section \<open>Valuation\<close>

lemma foldl_plus_sum_list: "foldl (+) a xs = a + sum_list (xs :: real list)"
  by (induction xs arbitrary: a) (simp_all add: add.assoc)

lemma py_sum_sum_list: "py_sum xs = sum_list xs"
  by (simp add: py_sum_def foldl_plus_sum_list)

lemma sum_list_filter_if:
  "sum_list (map f (filter P xs)) = sum_list (map (\<lambda>x. if P x then f x else (0::real)) xs)"
  by (induction xs) simp_all

text \<open>
  C1: the dirty value is the sum, over the coupons whose ex-date is strictly after the
  as-of date, of the discount factor at the payment date times the coupon amount, plus
  the discount factor at maturity times the principal. A coupon whose ex-date is on or
  before the as-of date adds nothing: the value is the same sum over all coupons with 0
  in its place, and the same as for the bond without these coupons.
\<close>

theorem calculate_dirty_value_sum:
  "calculate_dirty_value bond curve as_of =
     (\<Sum>c\<leftarrow>filter (\<lambda>c. as_of < ex_date c) (coupons bond). curve (payment_date c) * coupon_amount c)
       + curve (maturity bond) * principle bond
   \<and> calculate_dirty_value bond curve as_of =
     (\<Sum>c\<leftarrow>coupons bond. if ex_date c \<le> as_of then 0 else curve (payment_date c) * coupon_amount c)
       + curve (maturity bond) * principle bond
   \<and> calculate_dirty_value (bond\<lparr>coupons := filter (\<lambda>c. \<not> ex_date c \<le> as_of) (coupons bond)\<rparr>) curve as_of
       = calculate_dirty_value bond curve as_of"
proof -
  have "(\<Sum>c\<leftarrow>filter (\<lambda>c. as_of < ex_date c) (coupons bond). curve (payment_date c) * coupon_amount c)
      = (\<Sum>c\<leftarrow>coupons bond. if ex_date c \<le> as_of then 0 else curve (payment_date c) * coupon_amount c)"
    unfolding sum_list_filter_if by (rule arg_cong [where f = sum_list]) (auto simp: not_le)
  then show ?thesis
    by (simp add: calculate_dirty_value_def py_sum_sum_list not_le cong: filter_cong)
qed

theorem calculate_dirty_value_sum_witness:
  "calculate_dirty_value
     (FixedRateACGB_init 100
        [Coupon (1 / 2) (Date 2020 11 12) (Date 2020 11 23),
         Coupon (1 / 2) (Date 2021 5 12) (Date 2021 5 21)] (Date 2021 5 21))
     (\<lambda>dt. if dt < Date 2021 1 1 then 99 / 100 else 1) (Date 2020 11 12)
   = 1 / 2 + 100"
  using calculate_dirty_value_sum [of
     "FixedRateACGB_init 100
        [Coupon (1 / 2) (Date 2020 11 12) (Date 2020 11 23),
         Coupon (1 / 2) (Date 2021 5 12) (Date 2021 5 21)] (Date 2021 5 21)"
     "\<lambda>dt. if dt < Date 2021 1 1 then 99 / 100 else 1" "Date 2020 11 12"]
  by (simp add: FixedRateACGB_init_def Coupon_def less_date_def less_eq_date_def)

lemma fmul_one: "is_float x \<Longrightarrow> fmul 1 x = x"
  by (simp add: fmul_def is_float_def)

lemma fadd_commute: "fadd a b = fadd b a"
  by (simp add: fadd_def add.commute)

text \<open>
  C7, as it holds of the code: with the arithmetic taken exactly, over the reals, the
  dirty value under a constant curve \<open>k\<close> is \<open>k\<close> times the dirty value under the
  constant curve 1, and the dirty value under the constant curve 1 is the principal plus
  the sum of the amounts of the coupons whose ex-date is strictly after the as-of date.
  The latter holds in binary64 arithmetic as well, for a float principal and float
  coupon amounts, with the sum taken from the left.
\<close>

theorem calculate_dirty_value_flat_curve:
  "calculate_dirty_value bond (\<lambda>dt. k) as_of = k * calculate_dirty_value bond (\<lambda>dt. 1) as_of
   \<and> calculate_dirty_value bond (\<lambda>dt. 1) as_of
       = principle bond + (\<Sum>c\<leftarrow>filter (\<lambda>c. as_of < ex_date c) (coupons bond). coupon_amount c)
   \<and> (is_float (principle bond) \<and> (\<forall>c\<in>set (coupons bond). is_float (coupon_amount c))
        \<longrightarrow> calculate_dirty_value_float bond (\<lambda>dt. 1) as_of
              = fadd (principle bond)
                  (float_sum (map coupon_amount (filter (\<lambda>c. as_of < ex_date c) (coupons bond)))))"
proof (intro conjI impI)
  show "calculate_dirty_value bond (\<lambda>dt. k) as_of = k * calculate_dirty_value bond (\<lambda>dt. 1) as_of"
    by (simp add: calculate_dirty_value_def py_sum_sum_list sum_list_const_mult distrib_left)
  show "calculate_dirty_value bond (\<lambda>dt. 1) as_of
       = principle bond + (\<Sum>c\<leftarrow>filter (\<lambda>c. as_of < ex_date c) (coupons bond). coupon_amount c)"
    by (simp add: calculate_dirty_value_def py_sum_sum_list)
next
  assume f: "is_float (principle bond) \<and> (\<forall>c\<in>set (coupons bond). is_float (coupon_amount c))"
  have m: "map (\<lambda>c. fmul 1 (coupon_amount c)) (filter (\<lambda>c. as_of < ex_date c) (coupons bond))
      = map coupon_amount (filter (\<lambda>c. as_of < ex_date c) (coupons bond))"
    using f by (intro map_cong refl fmul_one) simp
  show "calculate_dirty_value_float bond (\<lambda>dt. 1) as_of
              = fadd (principle bond)
                  (float_sum (map coupon_amount (filter (\<lambda>c. as_of < ex_date c) (coupons bond))))"
    unfolding calculate_dirty_value_float_def Let_def m
    using f by (simp add: fmul_one fadd_commute)
qed

theorem calculate_dirty_value_flat_curve_witness:
  "is_float 100 \<and> is_float (3 / 4)
   \<and> calculate_dirty_value
        (FixedRateACGB_init 100 [Coupon (3 / 4) (Date 2020 11 12) (Date 2020 11 23)] (Date 2020 11 23))
        (\<lambda>dt. 99 / 100) (Date 2020 7 20) = 99 / 100 * (403 / 4)
   \<and> calculate_dirty_value
        (FixedRateACGB_init 100 [Coupon (3 / 4) (Date 2020 11 12) (Date 2020 11 23)] (Date 2020 11 23))
        (\<lambda>dt. 1) (Date 2020 7 20) = 403 / 4
   \<and> calculate_dirty_value_float
        (FixedRateACGB_init 100 [Coupon (3 / 4) (Date 2020 11 12) (Date 2020 11 23)] (Date 2020 11 23))
        (\<lambda>dt. 1) (Date 2020 7 20) = 403 / 4"
proof -
  have f: "is_float 100" "is_float (3 / 4)" "fadd 100 (float_sum [3 / 4]) = 403 / 4"
    by (simp_all add: float_eval)
  show ?thesis
    using calculate_dirty_value_flat_curve [of
      "FixedRateACGB_init 100 [Coupon (3 / 4) (Date 2020 11 12) (Date 2020 11 23)] (Date 2020 11 23)"
      "99 / 100" "Date 2020 7 20"] f
    by (simp add: FixedRateACGB_init_def Coupon_def less_date_def)
qed

theorem calculate_dirty_value_flat_curve_counterexample:
  "is_float 100 \<and> is_float (3 / 4) \<and> fl (99 / 100) = 4458563631096791 / 4503599627370496
   \<and> calculate_dirty_value_float
        (FixedRateACGB_init 100 [Coupon (3 / 4) (Date 2020 11 12) (Date 2020 11 23)] (Date 2020 11 23))
        (\<lambda>dt. fl (99 / 100)) (Date 2020 7 20) = 1754688616535163 / 17592186044416
   \<and> fmul (fl (99 / 100))
        (calculate_dirty_value_float
          (FixedRateACGB_init 100 [Coupon (3 / 4) (Date 2020 11 12) (Date 2020 11 23)] (Date 2020 11 23))
          (\<lambda>dt. 1) (Date 2020 7 20)) = 7018754466140651 / 70368744177664
   \<and> (1754688616535163 / 17592186044416 :: real) \<noteq> 7018754466140651 / 70368744177664"
proof -
  have k: "fl (99 / 100) = 4458563631096791 / 4503599627370496"
    by (simp add: float_eval)
  have f: "is_float 100" "is_float (3 / 4)"
    by (simp_all add: float_eval)
  have p1: "fmul (4458563631096791 / 4503599627370496) (3 / 4) = 3343922723322593 / 4503599627370496"
    by (simp add: float_eval)
  have p2: "fmul (4458563631096791 / 4503599627370496) 100 = 99"
    by (simp add: float_eval)
  have s0: "fadd 0 (3343922723322593 / 4503599627370496) = 3343922723322593 / 4503599627370496"
    by (simp add: float_eval)
  have s1: "fadd (3343922723322593 / 4503599627370496) 99 = 1754688616535163 / 17592186044416"
    by (simp add: float_eval)
  have v1: "fadd 0 (fmul 1 (3 / 4)) = 3 / 4" "fmul 1 100 = 100" "fadd (3 / 4) 100 = 403 / 4"
    by (simp_all add: float_eval)
  have p3: "fmul (4458563631096791 / 4503599627370496) (403 / 4) = 7018754466140651 / 70368744177664"
    by (simp add: float_eval)
  show ?thesis
    unfolding k using f
    by (simp add: calculate_dirty_value_float_def float_sum_def FixedRateACGB_init_def Coupon_def
          less_date_def p1 p2 s0 s1 v1 p3)
qed

section \<open>The market price accessors read what the setter wrote\<close>

text \<open>
  C9: after the write \<^verbatim>\<open>bond.market_dirty_price = v\<close>, which succeeds, both reads
  \<^verbatim>\<open>bond.market_value\<close> and \<^verbatim>\<open>bond.market_dirty_price\<close> return \<open>v\<close>: the setter
  updates the field that the getter reads.
\<close>

theorem market_dirty_price_write_then_read:
  "\<exists>bond'. write_attr market_dirty_price bond v = Inr bond'
      \<and> read_attr market_value bond' = Inr v
      \<and> read_attr market_dirty_price bond' = Inr v"
  by (simp add: write_attr_def read_attr_def market_dirty_price_def market_value_def
        property_setter_def property_getter_def)

theorem market_dirty_price_write_then_read_witness:
  "\<exists>bond'. write_attr market_dirty_price (FixedRateACGB_init 100 [] (Date 2020 11 21)) (101066 / 1000)
        = Inr bond'
      \<and> read_attr market_value bond' = Inr (101066 / 1000)
      \<and> read_attr market_dirty_price bond' = Inr (101066 / 1000)"
  by (rule market_dirty_price_write_then_read)

lemma market_value_read_only:
  "write_attr market_value bond v = Inl AttributeError"
  by (simp add: write_attr_def market_value_def property_getter_def)

section \<open>Properties of the discount curve\<close>

lemma sorted_hd_is_Min:
  assumes "sorted xs" "xs \<noteq> []"
  shows "hd xs = Min (set xs)"
proof (rule Min_eqI [symmetric])
  show "finite (set xs)" by simp
  show "hd xs \<in> set xs" using assms(2) by simp
  fix y assume "y \<in> set xs"
  then show "hd xs \<le> y" using assms by (cases xs) auto
qed

lemma sorted_last_is_Max:
  assumes "sorted xs" "xs \<noteq> []"
  shows "last xs = Max (set xs)"
proof (rule Max_eqI [symmetric])
  show "finite (set xs)" by simp
  show "last xs \<in> set xs" using assms(2) by simp
  fix y assume "y \<in> set xs"
  then obtain i where i: "i < length xs" "xs ! i = y" by (auto simp: in_set_conv_nth)
  have "xs ! i \<le> xs ! (length xs - 1)"
    using assms(1) i(1) by (intro sorted_nth_mono) simp_all
  then show "y \<le> last xs" using i(2) assms(2) by (simp add: last_conv_nth)
qed

lemma sorted_bonds_ends:
  assumes "bonds \<noteq> []"
  defines "sorted_bonds \<equiv> sort_key maturity bonds"
  shows "list_index sorted_bonds 0 = Inr (hd sorted_bonds)"
    and "list_index sorted_bonds (- 1) = Inr (last sorted_bonds)"
    and "maturity (hd sorted_bonds) = Min (maturity ` set bonds)"
    and "maturity (last sorted_bonds) = Max (maturity ` set bonds)"
proof -
  have ne: "sorted_bonds \<noteq> []"
    using assms(1) set_sort [of maturity bonds] unfolding sorted_bonds_def by (metis set_empty)
  have s: "sorted (map maturity sorted_bonds)" unfolding sorted_bonds_def by (rule sorted_sort_key)
  have st: "set (map maturity sorted_bonds) = maturity ` set bonds"
    unfolding sorted_bonds_def by (simp add: set_sort)
  show "list_index sorted_bonds 0 = Inr (hd sorted_bonds)"
    using ne by (simp add: list_index_def hd_conv_nth)
  have "nat (int (length sorted_bonds) + (- 1)) = length sorted_bonds - 1" by simp
  moreover have "1 \<le> int (length sorted_bonds)" using ne by (cases sorted_bonds) simp_all
  ultimately show "list_index sorted_bonds (- 1) = Inr (last sorted_bonds)"
    using ne by (simp add: list_index_def last_conv_nth)
  show "maturity (hd sorted_bonds) = Min (maturity ` set bonds)"
    using sorted_hd_is_Min [OF s] ne by (simp add: hd_map st [symmetric] del: set_map)
  show "maturity (last sorted_bonds) = Max (maturity ` set bonds)"
    using sorted_last_is_Max [OF s] ne by (simp add: last_map st [symmetric] del: set_map)
qed

lemma linspace_points:
  assumes "0 \<le> num"
  shows "linspace start stop num
     = Inr (map (\<lambda>i. start + real i * ((stop - start) / real_of_int (num - 1))) [0..<nat num])"
proof (cases "num > 1")
  case False
  then show ?thesis using assms by (simp add: linspace_def Let_def)
next
  case True
  define step where "step = (stop - start) / real_of_int (num - 1)"
  define k where "k = nat num - 1"
  have n: "nat num = Suc k" using True by (simp add: k_def)
  have rk: "real k = real_of_int (num - 1)" using True by (simp add: k_def)
  have "start + real k * step = stop"
    unfolding step_def rk using True by simp
  then have "butlast (map (\<lambda>i. start + real i * step) [0..<Suc k]) @ [stop]
      = map (\<lambda>i. start + real i * step) [0..<Suc k]"
    by simp
  then show ?thesis using True unfolding linspace_def Let_def step_def [symmetric] n by simp
qed


lemmas curve_eval =
  fit_discount_curve_def fit_knot_locations_def list_index_def linspace_def
  date_to_year_fraction_act_365_def DiscountFitOptions_init_def FixedRateACGB_init_def
  const_solver_def flat_spline_def calendar_defs

text \<open>
  C2, as it holds of the code: \<^verbatim>\<open>fit_discount_curve\<close> applied to
  an empty bond list fails with the IndexError of the access
  \<^verbatim>\<open>sorted_bonds[0]\<close>, whatever the solver, the interpolation, the
  options and the date; the code has no empty-input error of its own.
\<close>

theorem fit_discount_curve_empty_IndexError:
  "fit_discount_curve least_squares CubicSpline [] options today = Inl IndexError"
  by (simp add: fit_discount_curve_def fit_knot_locations_def list_index_def)

theorem fit_discount_curve_empty_IndexError_witness:
  "fit_discount_curve const_solver flat_spline [] DiscountFitOptions_init (Date 2020 7 23)
     = Inl IndexError"
  by (rule fit_discount_curve_empty_IndexError)

theorem fit_discount_curve_empty_counterexample:
  "fit_discount_curve const_solver flat_spline []
      \<lparr>knot_count = 10, extenion_days = 100\<rparr> (Date 2020 7 23) = Inl IndexError
   \<and> list_index (sort_key maturity []) 0 = Inl IndexError"
  by (simp add: curve_eval)

text \<open>
  C5, as it holds of the code: for every non-empty bond list, every today and all options
  with a \<open>knot_count\<close> that is not negative, whenever the earliest maturity minus
  \<open>extenion_days\<close> and the latest maturity plus \<open>extenion_days\<close> are dates of the
  calendar, \<^verbatim>\<open>fit_discount_curve\<close> places its knot locations at exactly
  \<open>knot_count\<close> equally spaced points in year fractions: point \<open>i\<close> is
  \<open>a + i * (b - a) / (knot_count - 1)\<close>, where \<open>a\<close> is the year fraction of the curve
  start and \<open>b\<close> that of the curve end, so that with two knots or more the first is
  \<open>a\<close> and the last is \<open>b\<close>. The curve start is the earliest maturity minus
  \<open>extenion_days\<close>, or today when that is earlier, and the curve end is the latest
  maturity plus \<open>extenion_days\<close>. Every curve that \<^verbatim>\<open>fit_discount_curve\<close> returns is
  an interpolation over these knot locations.
\<close>

theorem fit_discount_curve_knot_locations:
  assumes "bonds \<noteq> []" and "valid_date today"
    and "date_sub_days (Min (maturity ` set bonds)) (extenion_days options) = Inr earliest"
    and "date_add_days (Max (maturity ` set bonds)) (extenion_days options) = Inr curve_end"
    and "0 \<le> knot_count options"
  defines "curve_start \<equiv> max today earliest"
  defines "a \<equiv> date_to_year_fraction_act_365 today curve_start"
    and "b \<equiv> date_to_year_fraction_act_365 today curve_end"
  shows "\<exists>ks. fit_knot_locations bonds options today = Inr (sort_key maturity bonds, ks)
           \<and> length ks = nat (knot_count options)
           \<and> (\<forall>i<length ks. ks ! i = a + real i * ((b - a) / real_of_int (knot_count options - 1)))
           \<and> (2 \<le> knot_count options \<longrightarrow> hd ks = a \<and> last ks = b)
           \<and> today \<le> curve_start \<and> 0 \<le> a
           \<and> (\<forall>least_squares CubicSpline fitted.
                 fit_discount_curve least_squares CubicSpline bonds options today = Inr fitted
                   \<longrightarrow> (\<exists>values curve. CubicSpline ks values = Inr curve
                         \<and> fitted = (\<lambda>dt. curve (date_to_year_fraction_act_365 today dt))))"
proof -
  define n where "n = knot_count options"
  define step where "step = (b - a) / real_of_int (n - 1)"
  define ks where "ks = map (\<lambda>i. a + real i * step) [0..<nat n]"
  note e = sorted_bonds_ends [OF assms(1)]
  have cs: "(if earliest < today then today else earliest) = curve_start"
    by (auto simp: curve_start_def max_def)
  have r: "fit_knot_locations bonds options today = Inr (sort_key maturity bonds, ks)"
    using linspace_points [OF assms(5), of a b]
    by (simp add: fit_knot_locations_def Let_def e assms(3,4) cs ks_def step_def n_def
          a_def [symmetric] b_def [symmetric])
  have len: "length ks = nat n" by (simp add: ks_def)
  have nth: "\<forall>i<length ks. ks ! i = a + real i * step"
    by (simp add: ks_def nth_map_upt del: upt_Suc)
  have ends: "hd ks = a \<and> last ks = b" if n2: "2 \<le> n"
  proof -
    obtain k where k: "nat n = Suc k" using n2 by (cases "nat n") simp_all
    have rk: "real k = real_of_int (n - 1)" using k n2 by linarith
    have "a + real k * step = b" unfolding step_def rk using n2 by simp
    moreover have "hd ks = a" unfolding ks_def k by (simp add: upt_conv_Cons del: upt_Suc)
    moreover have "last ks = a + real k * step" unfolding ks_def k by simp
    ultimately show ?thesis by simp
  qed
  have le: "today \<le> curve_start" by (simp add: curve_start_def)
  have "valid_date earliest"
    using assms(3) toordinal_add_days(2) unfolding date_sub_days_def by blast
  then have "valid_date curve_start" using assms(2) by (simp add: curve_start_def max_def)
  then have "toordinal today \<le> toordinal curve_start"
    using toordinal_le_iff [OF assms(2)] le by simp
  then have a0: "0 \<le> a"
    by (simp add: a_def date_to_year_fraction_act_365_def days_between_def)
  have fit: "\<exists>values curve. CubicSpline ks values = Inr curve
        \<and> fitted = (\<lambda>dt. curve (date_to_year_fraction_act_365 today dt))"
    if "fit_discount_curve least_squares CubicSpline bonds options today = Inr fitted"
    for least_squares CubicSpline fitted
    using that unfolding fit_discount_curve_def r
    by (auto simp: Let_def split: sum.splits)
  show ?thesis
    using r len nth ends le a0 fit unfolding step_def n_def by blast
qed

theorem fit_discount_curve_knot_locations_witness:
  "valid_date (Date 2020 10 1)
   \<and> date_sub_days (Date 2020 11 21) 100 = Inr (Date 2020 8 13)
   \<and> date_add_days (Date 2030 5 21) 100 = Inr (Date 2030 8 29)
   \<and> (\<exists>ks. fit_knot_locations
         [FixedRateACGB_init 100 [] (Date 2030 5 21), FixedRateACGB_init 100 [] (Date 2020 11 21)]
         DiscountFitOptions_init (Date 2020 10 1)
        = Inr ([FixedRateACGB_init 100 [] (Date 2020 11 21), FixedRateACGB_init 100 [] (Date 2030 5 21)], ks)
      \<and> length ks = 5 \<and> hd ks = 0 \<and> last ks = 3619 / 365 \<and> ks ! 1 = 3619 / 1460)"
proof -
  define bonds where
    "bonds = [FixedRateACGB_init 100 [] (Date 2030 5 21), FixedRateACGB_init 100 [] (Date 2020 11 21)]"
  have mn: "Min (maturity ` set bonds) = Date 2020 11 21"
    and mx: "Max (maturity ` set bonds) = Date 2030 5 21"
    by (simp_all add: bonds_def FixedRateACGB_init_def less_eq_date_def min_def max_def)
  have h: "bonds \<noteq> []" "valid_date (Date 2020 10 1)"
    "date_sub_days (Min (maturity ` set bonds)) (extenion_days DiscountFitOptions_init) = Inr (Date 2020 8 13)"
    "date_add_days (Max (maturity ` set bonds)) (extenion_days DiscountFitOptions_init) = Inr (Date 2030 8 29)"
    "0 \<le> knot_count DiscountFitOptions_init"
    unfolding mn mx by (simp_all add: bonds_def DiscountFitOptions_init_def calendar_defs)
  have s: "sort_key maturity bonds
      = [FixedRateACGB_init 100 [] (Date 2020 11 21), FixedRateACGB_init 100 [] (Date 2030 5 21)]"
    by (simp add: bonds_def FixedRateACGB_init_def less_eq_date_def)
  have m: "max (Date 2020 10 1) (Date 2020 8 13) = Date 2020 10 1"
    by (simp add: max_def less_eq_date_def)
  have a: "date_to_year_fraction_act_365 (Date 2020 10 1) (Date 2020 10 1) = 0"
    and b: "date_to_year_fraction_act_365 (Date 2020 10 1) (Date 2030 8 29) = 3619 / 365"
    by (simp_all add: date_to_year_fraction_act_365_def calendar_defs)
  from fit_discount_curve_knot_locations [OF h]
  obtain ks where ks: "fit_knot_locations bonds DiscountFitOptions_init (Date 2020 10 1)
        = Inr (sort_key maturity bonds, ks)"
      "length ks = nat (knot_count DiscountFitOptions_init)"
      "\<forall>i<length ks. ks ! i = 0 + real i * ((3619 / 365 - 0) / real_of_int (knot_count DiscountFitOptions_init - 1))"
      "2 \<le> knot_count DiscountFitOptions_init \<longrightarrow> hd ks = 0 \<and> last ks = 3619 / 365"
    unfolding m a b by blast
  have "length ks = 5 \<and> hd ks = 0 \<and> last ks = 3619 / 365 \<and> ks ! 1 = 3619 / 1460"
    using ks(2,4) spec [OF ks(3), of 1] by (simp add: DiscountFitOptions_init_def)
  moreover note h(2) h(3,4) [unfolded mn mx] ks(1) [unfolded s, unfolded bonds_def]
  ultimately show ?thesis
    by (simp add: DiscountFitOptions_init_def)
qed

theorem fit_discount_curve_knot_locations_counterexample:
  "fit_discount_curve const_solver flat_spline [FixedRateACGB_init 100 [] (Date 9999 12 1)]
      DiscountFitOptions_init (Date 2020 7 23) = Inl OverflowError
   \<and> date_add_days (Date 9999 12 1) 100 = Inl OverflowError
   \<and> fit_discount_curve const_solver flat_spline [FixedRateACGB_init 100 [] (Date 2030 5 21)]
      \<lparr>knot_count = - 1, extenion_days = 100\<rparr> (Date 2020 7 23) = Inl ValueError"
  by (simp add: curve_eval)





end
